theory Spec2Isabelle
  imports Main "HOL-Library.Sublist" "HOL-Library.List_Lexorder" "HOL-Library.Char_ord"
begin

section \<open>Errors\<close>

text \<open>
  Every exception the modelled code can raise is a value. \<open>ValueError\<close> carries the
  place it comes from: \<open>int()\<close> on a string that is no decimal literal, a concatenation
  of no arrays, a concatenation of arrays whose shapes disagree, and an image of negative
  size.
\<close>

datatype value_error = InvalidLiteral | NeedOneArray | DimensionMismatch | NegativeSize

datatype error = IndexError | ValueError value_error | FileNotFoundError | UnidentifiedImageError

section \<open>Python strings and lists\<close>

text \<open>
  Strings are lists of bytes; the model covers ASCII file names. \<open>str_split\<close> is
  \<^verbatim>\<open>s.split(sep)\<close> for a one-character separator, \<open>str_replace\<close> is
  \<^verbatim>\<open>s.replace(old, new)\<close> (all non-overlapping occurrences, leftmost first),
  \<open>str_endswith\<close> is \<^verbatim>\<open>s.endswith(t)\<close>.
\<close>

fun str_split :: "char \<Rightarrow> string \<Rightarrow> string list" where
  "str_split sep [] = [[]]"
| "str_split sep (c # cs) =
     (if c = sep then [] # str_split sep cs
      else (case str_split sep cs of
              [] \<Rightarrow> [[c]]
            | p # ps \<Rightarrow> (c # p) # ps))"

function str_replace :: "string \<Rightarrow> string \<Rightarrow> string \<Rightarrow> string" where
  "str_replace s old new =
     (if old = [] then new @ concat (map (\<lambda>c. c # new) s)
      else if s = [] then []
      else if prefix old s then new @ str_replace (drop (length old) s) old new
      else hd s # str_replace (tl s) old new)"
  by pat_completeness auto
termination
  by (relation "measure (\<lambda>(s, old, new). length s)") (auto simp: neq_Nil_conv)

declare str_replace.simps [simp del]

definition str_endswith :: "string \<Rightarrow> string \<Rightarrow> bool" where
  "str_endswith s t = suffix t s"

text \<open>
  \<^verbatim>\<open>xs[i]\<close> and \<^verbatim>\<open>xs[i] = v\<close>: a negative index counts from the end, an index out
  of range raises IndexError.
\<close>

definition py_index :: "nat \<Rightarrow> int \<Rightarrow> nat option" where
  "py_index n i =
     (let j = (if i < 0 then i + int n else i)
      in if 0 \<le> j \<and> j < int n then Some (nat j) else None)"

definition getitem :: "'a list \<Rightarrow> int \<Rightarrow> error + 'a" where
  "getitem xs i = (case py_index (length xs) i of None \<Rightarrow> Inl IndexError | Some k \<Rightarrow> Inr (xs ! k))"

definition setitem :: "'a list \<Rightarrow> int \<Rightarrow> 'a \<Rightarrow> error + 'a list" where
  "setitem xs i v =
     (case py_index (length xs) i of None \<Rightarrow> Inl IndexError | Some k \<Rightarrow> Inr (xs[k := v]))"

text \<open>
  \<^verbatim>\<open>int(s)\<close> in base 10: surrounding whitespace (tab, line feed, vertical tab, form
  feed, carriage return and space) is stripped, one sign is allowed, the digits may be
  grouped by single underscores; anything else raises ValueError.
\<close>

definition is_digit :: "char \<Rightarrow> bool" where
  "is_digit c = (CHR ''0'' \<le> c \<and> c \<le> CHR ''9'')"

definition is_space :: "char \<Rightarrow> bool" where
  "is_space c = (let n = (of_char c :: nat) in (9 \<le> n \<and> n \<le> 13) \<or> n = 32)"

definition str_strip :: "string \<Rightarrow> string" where
  "str_strip s = rev (dropWhile is_space (rev (dropWhile is_space s)))"

definition digits_value :: "string \<Rightarrow> nat" where
  "digits_value s = fold (\<lambda>c n. 10 * n + (of_char c - 48)) s 0"

definition py_int :: "string \<Rightarrow> error + int" where
  "py_int s =
     (let t = str_strip s;
          neg = (t \<noteq> [] \<and> hd t = CHR ''-'');
          body = (if t \<noteq> [] \<and> (hd t = CHR ''-'' \<or> hd t = CHR ''+'') then tl t else t);
          groups = str_split CHR ''_'' body
      in if list_all (\<lambda>g. g \<noteq> [] \<and> list_all is_digit g) groups
         then Inr ((if neg then - 1 else 1) * int (digits_value (concat groups)))
         else Inl (ValueError InvalidLiteral))"

text \<open>\<^verbatim>\<open>os.path.basename\<close> on POSIX: what follows the last slash.\<close>

definition basename :: "string \<Rightarrow> string" where
  "basename p = rev (takeWhile (\<lambda>c. c \<noteq> CHR ''/'') (rev p))"

section \<open>Sequencing of fallible steps\<close>

text \<open>
  A list comprehension or a \<^verbatim>\<open>for\<close> loop whose body can raise stops at the first
  exception: \<open>map_err\<close> collects results, \<open>fold_err\<close> threads a state.
\<close>

fun map_err :: "('a \<Rightarrow> 'e + 'b) \<Rightarrow> 'a list \<Rightarrow> 'e + 'b list" where
  "map_err f [] = Inr []"
| "map_err f (x # xs) =
     (case f x of
        Inl e \<Rightarrow> Inl e
      | Inr y \<Rightarrow> (case map_err f xs of Inl e \<Rightarrow> Inl e | Inr ys \<Rightarrow> Inr (y # ys)))"

fun fold_err :: "('a \<Rightarrow> 's \<Rightarrow> 'e + 's) \<Rightarrow> 'a list \<Rightarrow> 's \<Rightarrow> 'e + 's" where
  "fold_err f [] s = Inr s"
| "fold_err f (x # xs) s = (case f x s of Inl e \<Rightarrow> Inl e | Inr s' \<Rightarrow> fold_err f xs s')"

section \<open>Natural sorting\<close>

text \<open>
  \<^verbatim>\<open>natsorted\<close> with its default algorithm sorts by a key: the string cut into maximal
  runs of digits, read as numbers, and the text between them, with an empty text put in
  front when the string starts with a digit, so that keys alternate text and number.
  Keys compare as Python tuples do, element by element and a proper prefix first, and the
  sort is stable. Since every key starts with a text and alternates, a text never meets a
  number at the same position; the two mixed cases of \<open>chunk_less\<close> are there for
  totality only.
\<close>

datatype chunk = Text string | Number nat

function chunks :: "string \<Rightarrow> chunk list" where
  "chunks [] = []"
| "chunks (c # cs) =
     (if is_digit c
      then Number (digits_value (c # takeWhile is_digit cs)) # chunks (dropWhile is_digit cs)
      else Text (c # takeWhile (\<lambda>d. \<not> is_digit d) cs) # chunks (dropWhile (\<lambda>d. \<not> is_digit d) cs))"
  by pat_completeness auto
termination
  by (relation "measure length") (auto simp: less_Suc_eq_le length_dropWhile_le)

definition natsort_key :: "string \<Rightarrow> chunk list" where
  "natsort_key s =
     (case chunks s of
        Number n # cs \<Rightarrow> Text [] # Number n # cs
      | cs \<Rightarrow> cs)"

fun chunk_less :: "chunk \<Rightarrow> chunk \<Rightarrow> bool" where
  "chunk_less (Text a) (Text b) = (a < b)"
| "chunk_less (Number m) (Number n) = (m < n)"
| "chunk_less (Text a) (Number n) = False"
| "chunk_less (Number m) (Text b) = True"

fun key_less :: "chunk list \<Rightarrow> chunk list \<Rightarrow> bool" where
  "key_less [] [] = False"
| "key_less [] (y # ys) = True"
| "key_less (x # xs) [] = False"
| "key_less (x # xs) (y # ys) = (if x = y then key_less xs ys else chunk_less x y)"

fun natsort_insert :: "string \<Rightarrow> string list \<Rightarrow> string list" where
  "natsort_insert x [] = [x]"
| "natsort_insert x (y # ys) =
     (if key_less (natsort_key y) (natsort_key x) then y # natsort_insert x ys else x # y # ys)"

definition natsorted :: "string list \<Rightarrow> string list" where
  "natsorted xs = foldr natsort_insert xs []"

section \<open>Grouping tiles into rows\<close>

text \<open>
  The row coordinate of a path, as the loop of \<^verbatim>\<open>group_images\<close> reads it: the path
  without \<^verbatim>\<open>"." + image_ext\<close>, split at underscores, last but one piece, read as an
  integer.
\<close>

definition row_of_path :: "string \<Rightarrow> string \<Rightarrow> error + int" where
  "row_of_path image_ext img =
     (let image_name_no_ext = str_replace img (''.'' @ image_ext) '''' in
      case getitem (str_split CHR ''_'' image_name_no_ext) (- 2) of
        Inl e \<Rightarrow> Inl e
      | Inr coord_y \<Rightarrow> py_int coord_y)"

text \<open>
  The loop carries \<^verbatim>\<open>last_y\<close>, \<^verbatim>\<open>group_index\<close> and \<^verbatim>\<open>grouped_images\<close>;
  \<open>group_step\<close> is its body for one path.
\<close>

definition group_step ::
  "string \<Rightarrow> string \<Rightarrow> int \<times> nat \<times> string list list \<Rightarrow> error + int \<times> nat \<times> string list list"
where
  "group_step image_ext img st =
     (case st of (last_y, group_index, grouped_images) \<Rightarrow>
      if str_endswith img image_ext then
        (case row_of_path image_ext img of
           Inl e \<Rightarrow> Inl e
         | Inr coord_y \<Rightarrow>
            if coord_y = last_y then
              (if group_index < length grouped_images
               then Inr (last_y, group_index,
                         grouped_images[group_index := grouped_images ! group_index @ [img]])
               else Inl IndexError)
            else Inr (coord_y, group_index + 1, grouped_images @ [[img]]))
      else Inr st)"

definition group_images :: "string list \<Rightarrow> string \<Rightarrow> error + string list list" where
  "group_images images image_ext =
     (let all_images = natsorted images in
      case fold_err (group_step image_ext) all_images (0, 0, [[]]) of
        Inl e \<Rightarrow> Inl e
      | Inr (last_y, group_index, grouped_images) \<Rightarrow> Inr grouped_images)"

section \<open>The name of the output file\<close>

text \<open>
  \<^verbatim>\<open>check_image_file\<close>: the path ends in one of six extensions.
\<close>

definition image_extensions :: "string list" where
  "image_extensions = [''.jpg'', ''.jpeg'', ''.tif'', ''.bmp'', ''.png'', ''.gif'']"

definition check_image_file :: "string \<Rightarrow> bool" where
  "check_image_file img = list_ex (\<lambda>image_ext. str_endswith img image_ext) image_extensions"

text \<open>
  \<^verbatim>\<open>re.findall("_[0-9]+_[0-9]+." + image_ext, s)\<close> for an extension of letters, which
  the pattern takes literally. \<open>re_match\<close> is a match at the start of \<open>s\<close>: an underscore,
  the whole run of digits that follows (a shorter run would have to be followed by an
  underscore and is followed by a digit), an underscore, then as many digits of the
  next run as leave one more character, other than a newline, in front of the
  extension, tried from the longest as the greedy \<^verbatim>\<open>+\<close> does. \<open>re_findall\<close> collects
  the matches from left to right, without overlap.
\<close>

fun re_digits :: "string \<Rightarrow> string \<Rightarrow> nat \<Rightarrow> nat option" where
  "re_digits image_ext s 0 = None"
| "re_digits image_ext s (Suc k) =
     (case drop (Suc k) s of
        [] \<Rightarrow> re_digits image_ext s k
      | c # rest \<Rightarrow>
          if c \<noteq> CHR 0x0A \<and> prefix image_ext rest then Some (Suc k)
          else re_digits image_ext s k)"

definition re_match :: "string \<Rightarrow> string \<Rightarrow> string option" where
  "re_match image_ext s =
     (case s of
        [] \<Rightarrow> None
      | c0 # s1 \<Rightarrow>
          if c0 \<noteq> CHR ''_'' \<or> takeWhile is_digit s1 = [] then None
          else (case dropWhile is_digit s1 of
                  [] \<Rightarrow> None
                | c1 # s2 \<Rightarrow>
                    if c1 \<noteq> CHR ''_'' then None
                    else (case re_digits image_ext s2 (length (takeWhile is_digit s2)) of
                            None \<Rightarrow> None
                          | Some k \<Rightarrow>
                              Some (c0 # takeWhile is_digit s1 @ c1 # take (Suc k) s2 @ image_ext))))"

function re_findall :: "string \<Rightarrow> string \<Rightarrow> string list" where
  "re_findall image_ext s =
     (if s = [] then []
      else (case re_match image_ext s of
              None \<Rightarrow> re_findall image_ext (tl s)
            | Some m \<Rightarrow> m # re_findall image_ext (drop (length m) s)))"
  by pat_completeness auto
termination
  by (relation "measure (\<lambda>(image_ext, s). length s)")
     (auto simp: re_match_def neq_Nil_conv split: list.splits if_splits option.splits)

declare re_findall.simps [simp del]

text \<open>
  The part of \<^verbatim>\<open>main\<close> that names the output, for the first path of the folder: the
  file is saved in the output folder under the name returned here.
\<close>

definition output_name :: "string \<Rightarrow> error + string" where
  "output_name first_image =
     (case getitem (str_split CHR ''.'' first_image) (- 1) of
        Inl e \<Rightarrow> Inl e
      | Inr image_ext \<Rightarrow>
         (case getitem (re_findall image_ext first_image) (- 1) of
            Inl e \<Rightarrow> Inl e
          | Inr m \<Rightarrow>
             (let image_name = str_replace (basename first_image) m ''''
              in Inr (image_name @ ''_merged.'' @ image_ext))))"

section \<open>Images and arrays\<close>

text \<open>
  A PIL image as the program reads it: the path it was opened from, the format name PIL
  found in the file, its size, and its pixels as \<open>height\<close> rows of \<open>width\<close> pixels. The
  pixel type is left open. An image built in memory has no file name and no format; both
  are the empty string then. A numpy array of an image has the shape (rows, columns) and
  the same cells.
\<close>

record 'p image =
  filename :: string
  format :: string
  width :: nat
  height :: nat
  data :: "'p list list"

record 'p ndarray =
  nrows :: nat
  ncols :: nat
  cells :: "'p list list"

text \<open>An image file on disk decodes to at least one pixel, in rows of equal length.\<close>

definition wf_image :: "'p image \<Rightarrow> bool" where
  "wf_image im =
     (0 < width im \<and> 0 < height im \<and> length (data im) = height im \<and>
      list_all (\<lambda>r. length r = width im) (data im))"

text \<open>
  What a path holds on disk: nothing, a file that PIL cannot read as an image, or an
  image. \<^verbatim>\<open>Image.open(path)\<close> raises FileNotFoundError on the first and
  UnidentifiedImageError on the second; the opened image remembers the path.
\<close>

datatype 'p disk_file = NoFile | NotAnImage | ImageFile "'p image"

definition Image_open :: "(string \<Rightarrow> 'p disk_file) \<Rightarrow> string \<Rightarrow> error + 'p image" where
  "Image_open fs path =
     (case fs path of
        NoFile \<Rightarrow> Inl FileNotFoundError
      | NotAnImage \<Rightarrow> Inl UnidentifiedImageError
      | ImageFile im \<Rightarrow> Inr (im\<lparr>filename := path\<rparr>))"

definition np_asarray :: "'p image \<Rightarrow> 'p ndarray" where
  "np_asarray im = \<lparr>nrows = height im, ncols = width im, cells = data im\<rparr>"

definition Image_fromarray :: "'p ndarray \<Rightarrow> 'p image" where
  "Image_fromarray a =
     \<lparr>filename = [], format = [], width = ncols a, height = nrows a, data = cells a\<rparr>"

text \<open>
  \<^verbatim>\<open>ImageOps.expand(image, (left, top, right, bottom), fill)\<close> makes a new image of
  the enlarged size in the fill colour and pastes the image at (left, top); a paste that
  reaches outside the new image is clipped, and a negative size is refused.
\<close>

definition ImageOps_expand :: "'p image \<Rightarrow> int \<times> int \<times> int \<times> int \<Rightarrow> 'p \<Rightarrow> error + 'p image" where
  "ImageOps_expand im border fill =
     (case border of (l, t, r, b) \<Rightarrow>
      let w = l + int (width im) + r;
          h = t + int (height im) + b
      in if w < 0 \<or> h < 0 then Inl (ValueError NegativeSize)
         else Inr \<lparr>filename = [], format = [], width = nat w, height = nat h,
                   data = map (\<lambda>y. map (\<lambda>x.
                            let sx = int x - l; sy = int y - t
                            in if 0 \<le> sx \<and> sx < int (width im) \<and> 0 \<le> sy \<and> sy < int (height im)
                               then data im ! nat sy ! nat sx else fill)
                          [0..<nat w]) [0..<nat h]\<rparr>)"

text \<open>\<^verbatim>\<open>image.crop((x0, y0, x0 + w, y0 + h))\<close> for a box inside the image.\<close>

definition crop :: "'p image \<Rightarrow> nat \<Rightarrow> nat \<Rightarrow> nat \<Rightarrow> nat \<Rightarrow> 'p list list" where
  "crop im x0 y0 w h = map (\<lambda>row. take w (drop x0 row)) (take h (drop y0 (data im)))"

text \<open>
  \<^verbatim>\<open>np.hstack\<close> joins arrays of equal row count side by side, \<^verbatim>\<open>np.vstack\<close> joins
  arrays of equal column count one below the other; both refuse an empty list and
  disagreeing shapes.
\<close>

definition np_hstack :: "'p ndarray list \<Rightarrow> error + 'p ndarray" where
  "np_hstack arrays =
     (if arrays = [] then Inl (ValueError NeedOneArray)
      else if list_ex (\<lambda>a. nrows a \<noteq> nrows (hd arrays)) arrays then Inl (ValueError DimensionMismatch)
      else Inr \<lparr>nrows = nrows (hd arrays), ncols = sum_list (map ncols arrays),
                cells = map (\<lambda>y. concat (map (\<lambda>a. cells a ! y) arrays)) [0..<nrows (hd arrays)]\<rparr>)"

definition np_vstack :: "'p ndarray list \<Rightarrow> error + 'p ndarray" where
  "np_vstack arrays =
     (if arrays = [] then Inl (ValueError NeedOneArray)
      else if list_ex (\<lambda>a. ncols a \<noteq> ncols (hd arrays)) arrays then Inl (ValueError DimensionMismatch)
      else Inr \<lparr>nrows = sum_list (map nrows arrays), ncols = ncols (hd arrays),
                cells = concat (map cells arrays)\<rparr>)"

section \<open>Padding a tile\<close>

text \<open>
  The row coordinate of an opened tile, as \<^verbatim>\<open>pad_image\<close> and \<^verbatim>\<open>merge\<close> both compute
  it: the base name without \<^verbatim>\<open>"." + image.format\<close>, split at underscores, last but one
  piece, read as an integer.
\<close>

definition coord_y_of :: "'p image \<Rightarrow> error + int" where
  "coord_y_of im =
     (let image_name_no_ext = str_replace (basename (filename im)) (''.'' @ format im) '''' in
      case getitem (str_split CHR ''_'' image_name_no_ext) (- 2) of
        Inl e \<Rightarrow> Inl e
      | Inr s \<Rightarrow> py_int s)"

text \<open>
  \<open>black\<close> gives, for a tile, the pixel that the colour name \<^verbatim>\<open>"black"\<close> resolves to
  for that tile: by its mode and, for a palette tile, in the tile's own palette.
\<close>

definition pad_image :: "('p image \<Rightarrow> 'p) \<Rightarrow> 'p image \<Rightarrow> nat list \<Rightarrow> nat list \<Rightarrow> error + 'p image" where
  "pad_image black im max_heights max_widths =
     (let image_height = height im;
          image_width = width im
      in case coord_y_of im of
           Inl e \<Rightarrow> Inl e
         | Inr coord_y \<Rightarrow>
            (case getitem max_heights coord_y of
               Inl e \<Rightarrow> Inl e
             | Inr target_height \<Rightarrow>
                (case getitem max_widths coord_y of
                   Inl e \<Rightarrow> Inl e
                 | Inr target_width \<Rightarrow>
                    (let padding_height = int target_height - int image_height;
                         padding_width = int target_width - int image_width;
                         pad_top = padding_height div 2;
                         pad_bottom = padding_height - pad_top;
                         pad_left = padding_width div 2;
                         pad_right = padding_width - pad_left
                     in ImageOps_expand im (pad_left, pad_top, pad_right, pad_bottom) (black im)))))"

section \<open>Merging\<close>

text \<open>
  The first loop of \<^verbatim>\<open>merge\<close>: \<open>update_tables\<close> is the body of the inner loop for the
  tile \<open>im\<close> of the group with index \<open>i\<close>, \<open>scan_group\<close> opens a group and runs the inner
  loop, \<open>dimension_tables\<close> starts from two tables of zeros.
\<close>

definition update_tables :: "nat \<Rightarrow> 'p image \<Rightarrow> nat list \<times> nat list \<Rightarrow> error + nat list \<times> nat list" where
  "update_tables i im tables =
     (case tables of (max_heights, max_widths) \<Rightarrow>
      let image_height = height im;
          image_width = width im
      in case coord_y_of im of
           Inl e \<Rightarrow> Inl e
         | Inr coord_y \<Rightarrow>
            (case getitem max_heights coord_y of
               Inl e \<Rightarrow> Inl e
             | Inr h \<Rightarrow>
                (case setitem max_heights coord_y (max h image_height) of
                   Inl e \<Rightarrow> Inl e
                 | Inr max_heights' \<Rightarrow>
                    (case getitem max_widths (int i) of
                       Inl e \<Rightarrow> Inl e
                     | Inr w \<Rightarrow>
                        (case setitem max_widths (int i) (max w image_width) of
                           Inl e \<Rightarrow> Inl e
                         | Inr max_widths' \<Rightarrow> Inr (max_heights', max_widths'))))))"

definition scan_group ::
  "(string \<Rightarrow> 'p disk_file) \<Rightarrow> nat \<times> string list \<Rightarrow> nat list \<times> nat list \<Rightarrow> error + nat list \<times> nat list"
where
  "scan_group fs ig tables =
     (case ig of (i, grp) \<Rightarrow>
      case map_err (Image_open fs) grp of
        Inl e \<Rightarrow> Inl e
      | Inr images \<Rightarrow> fold_err (update_tables i) images tables)"

definition dimension_tables ::
  "(string \<Rightarrow> 'p disk_file) \<Rightarrow> string list list \<Rightarrow> error + nat list \<times> nat list"
where
  "dimension_tables fs grouped_images =
     fold_err (scan_group fs) (enumerate 0 grouped_images)
       (replicate (length grouped_images) 0, replicate (length grouped_images) 0)"

text \<open>The body of the second loop: one row group becomes one row strip.\<close>

definition horizontal_part ::
  "('p image \<Rightarrow> 'p) \<Rightarrow> (string \<Rightarrow> 'p disk_file) \<Rightarrow> nat list \<Rightarrow> nat list \<Rightarrow> string list \<Rightarrow> error + 'p image"
where
  "horizontal_part black fs max_heights max_widths grp =
     (case map_err (Image_open fs) grp of
        Inl e \<Rightarrow> Inl e
      | Inr images \<Rightarrow>
         (case map_err (\<lambda>im. pad_image black im max_heights max_widths) images of
            Inl e \<Rightarrow> Inl e
          | Inr padded_images \<Rightarrow>
             (case np_hstack (map np_asarray padded_images) of
                Inl e \<Rightarrow> Inl e
              | Inr a \<Rightarrow> Inr (Image_fromarray a))))"

definition merge ::
  "('p image \<Rightarrow> 'p) \<Rightarrow> (string \<Rightarrow> 'p disk_file) \<Rightarrow> string list list \<Rightarrow> error + 'p image"
where
  "merge black fs grouped_images =
     (case dimension_tables fs grouped_images of
        Inl e \<Rightarrow> Inl e
      | Inr (max_heights, max_widths) \<Rightarrow>
         (case map_err (horizontal_part black fs max_heights max_widths) grouped_images of
            Inl e \<Rightarrow> Inl e
          | Inr horizontal_parts \<Rightarrow>
             (case np_vstack (map np_asarray horizontal_parts) of
                Inl e \<Rightarrow> Inl e
              | Inr full_image \<Rightarrow> Inr (Image_fromarray full_image))))"

section \<open>Example tiles\<close>

text \<open>A one-row tile of width 10, as PIL opens it from a PNG file.\<close>

definition strip10 :: "nat image" where
  "strip10 = \<lparr>filename = ''scan/t_0_0.png'', format = ''PNG'', width = 10, height = 1,
              data = [[1, 2, 3, 4, 5, 6, 7, 8, 9, 10]]\<rparr>"

text \<open>
  The index of the max-height table that a tile reads and writes: its row coordinate,
  taken as a Python index into a table of \<open>n\<close> entries.
\<close>

definition row_key :: "nat \<Rightarrow> 'p image \<Rightarrow> nat option" where
  "row_key n im = (case coord_y_of im of Inl e \<Rightarrow> None | Inr c \<Rightarrow> py_index n c)"

text \<open>
  A folder that holds the listed image files and nothing else; tiles of one colour; and a
  folder whose first group holds the tile of row 1.
\<close>

definition folder :: "(string \<times> 'p image) list \<Rightarrow> string \<Rightarrow> 'p disk_file" where
  "folder files path = (case map_of files path of None \<Rightarrow> NoFile | Some im \<Rightarrow> ImageFile im)"

definition solid :: "nat \<Rightarrow> nat \<Rightarrow> nat \<Rightarrow> nat image" where
  "solid w h v = \<lparr>filename = [], format = ''PNG'', width = w, height = h,
                  data = replicate h (replicate w v)\<rparr>"

definition fs_swapped :: "string \<Rightarrow> nat disk_file" where
  "fs_swapped = folder
     [(''a_1_0.png'', solid 4 2 7),
      (''a_0_0.png'', solid 5 3 8)]"

text \<open>
  A grouping in which every path is a readable file whose row coordinate is the position
  of its group: what \<^verbatim>\<open>group_images\<close> yields for rows numbered from 0 without a gap.
\<close>

definition rows_aligned :: "(string \<Rightarrow> 'p disk_file) \<Rightarrow> string list list \<Rightarrow> bool" where
  "rows_aligned fs grouped_images =
     list_all (\<lambda>(i, grp).
        list_all (\<lambda>p. case Image_open fs p of
                         Inl e \<Rightarrow> False
                       | Inr im \<Rightarrow> coord_y_of im = Inr (int i)) grp)
       (enumerate 0 grouped_images)"

text \<open>A folder of a 2 by 2 grid with uneven tiles, and a folder holding one tile of row 1.\<close>

definition fs_grid :: "string \<Rightarrow> nat disk_file" where
  "fs_grid = folder
     [(''d/a_0_0.png'', solid 2 1 1),
      (''d/a_0_1.png'', solid 3 2 2),
      (''d/a_1_0.png'', solid 2 1 3),
      (''d/a_1_1.png'', solid 3 1 4)]"

definition fs_row1 :: "string \<Rightarrow> nat disk_file" where
  "fs_row1 = folder
     [(''im_1_0.png'', solid 2 1 5)]"

text \<open>
  The hypothesis of a uniform grid in a form that can be evaluated: \<open>R\<close> groups of \<open>C\<close>
  paths, every path a readable tile of width \<open>W\<close> and height \<open>H\<close> whose row coordinate is
  the position of its group. Below it, a folder with such a grid of 2 by 2 tiles.
\<close>

definition uniform_grid ::
  "(string \<Rightarrow> 'p disk_file) \<Rightarrow> string list list \<Rightarrow> nat \<Rightarrow> nat \<Rightarrow> nat \<Rightarrow> nat \<Rightarrow> bool"
where
  "uniform_grid fs grouped_images R C W H =
     (length grouped_images = R \<and> 0 < R \<and> 0 < C \<and>
      list_all (\<lambda>(i, grp). length grp = C \<and>
          list_all (\<lambda>p. case Image_open fs p of
                           Inl e \<Rightarrow> False
                         | Inr im \<Rightarrow> wf_image im \<and> width im = W \<and> height im = H \<and>
                                    coord_y_of im = Inr (int i)) grp)
        (enumerate 0 grouped_images))"

definition fs_uniform :: "string \<Rightarrow> nat disk_file" where
  "fs_uniform =
     folder
     [(''t/s_0_0.png'', \<lparr>filename = [], format = ''PNG'', width = 2, height = 2, data = [[1, 2], [3, 4]]\<rparr>),
      (''t/s_0_1.png'', \<lparr>filename = [], format = ''PNG'', width = 2, height = 2, data = [[5, 6], [7, 8]]\<rparr>),
      (''t/s_1_0.png'', \<lparr>filename = [], format = ''PNG'', width = 2, height = 2, data = [[9, 10], [11, 12]]\<rparr>),
      (''t/s_1_1.png'', \<lparr>filename = [], format = ''PNG'', width = 2, height = 2, data = [[13, 14], [15, 16]]\<rparr>)]"

text \<open>
  A folder whose natural order puts the tile of row 2 before the tile of row 1: the
  second group holds the row-2 tile.
\<close>

definition fs_skew :: "string \<Rightarrow> nat disk_file" where
  "fs_skew = folder
     [(''a_0_0.png'', solid 4 1 1),
      (''a_2_0.png'', solid 3 1 2),
      (''b_1_0.png'', solid 5 1 3)]"

section \<open>One folder of \<open>main\<close>\<close>

text \<open>
  The body of the loop of \<^verbatim>\<open>main\<close> for one folder, from the list \<open>all_images\<close> of its
  image paths: the extension and the output name come from the first path, the paths are
  grouped and merged, and the merged image is saved in the output folder under the name
  returned with it. The extension is bound to \<open>ext\<close>, as in \<open>group_images\<close>.
\<close>

definition main_body ::
  "('p image \<Rightarrow> 'p) \<Rightarrow> (string \<Rightarrow> 'p disk_file) \<Rightarrow> string list \<Rightarrow> error + string \<times> 'p image"
where
  "main_body black fs all_images =
     (case getitem all_images 0 of
        Inl e \<Rightarrow> Inl e
      | Inr first_image \<Rightarrow>
         (case getitem (str_split CHR ''.'' first_image) (- 1) of
            Inl e \<Rightarrow> Inl e
          | Inr ext \<Rightarrow>
             (case output_name first_image of
                Inl e \<Rightarrow> Inl e
              | Inr saved_name \<Rightarrow>
                 (case group_images all_images ext of
                    Inl e \<Rightarrow> Inl e
                  | Inr grouped_images \<Rightarrow>
                     (case merge black fs grouped_images of
                        Inl e \<Rightarrow> Inl e
                      | Inr full_image \<Rightarrow> Inr (saved_name, full_image))))))"

text \<open>
  A folder with the one tile \<open>scanA_0_0.jpg\<close>, and a folder with one tile whose base name
  holds its own coordinate suffix twice.
\<close>

definition fs_scanA :: "string \<Rightarrow> nat disk_file" where
  "fs_scanA = folder
     [(''/data/scanA_0_0.jpg'',
       \<lparr>filename = [], format = ''JPEG'', width = 2, height = 1, data = [[1, 2]]\<rparr>)]"

definition fs_twice :: "string \<Rightarrow> nat disk_file" where
  "fs_twice = folder
     [(''/t/x_0_0.jpg_0_0.jpg'',
       \<lparr>filename = [], format = ''JPEG'', width = 2, height = 1, data = [[1, 2]]\<rparr>)]"

section \<open>Padding: how the border is split\<close>

lemma expand_Inr:
  assumes "0 \<le> l + int (width im) + r" "0 \<le> t + int (height im) + b"
  shows "ImageOps_expand im (l, t, r, b) fill =
     Inr \<lparr>filename = [], format = [], width = nat (l + int (width im) + r),
          height = nat (t + int (height im) + b),
          data = map (\<lambda>y. map (\<lambda>x.
                   if 0 \<le> int x - l \<and> int x - l < int (width im) \<and>
                      0 \<le> int y - t \<and> int y - t < int (height im)
                   then data im ! nat (int y - t) ! nat (int x - l) else fill)
                 [0..<nat (l + int (width im) + r)]) [0..<nat (t + int (height im) + b)]\<rparr>"
  using assms by (simp add: ImageOps_expand_def Let_def)

lemma pad_image_eq:
  assumes "coord_y_of im = Inr c" "getitem mh c = Inr th" "getitem mw c = Inr tw"
  shows "pad_image black im mh mw =
     ImageOps_expand im ((int tw - int (width im)) div 2, (int th - int (height im)) div 2,
        (int tw - int (width im)) - (int tw - int (width im)) div 2,
        (int th - int (height im)) - (int th - int (height im)) div 2) (black im)"
  using assms by (simp add: pad_image_def Let_def)

lemma pad_image_Inr:
  assumes "coord_y_of im = Inr c" "getitem mh c = Inr th" "getitem mw c = Inr tw"
  shows "pad_image black im mh mw =
     Inr \<lparr>filename = [], format = [], width = tw, height = th,
          data = map (\<lambda>y. map (\<lambda>x.
               if 0 \<le> int x - (int tw - int (width im)) div 2 \<and>
                  int x - (int tw - int (width im)) div 2 < int (width im) \<and>
                  0 \<le> int y - (int th - int (height im)) div 2 \<and>
                  int y - (int th - int (height im)) div 2 < int (height im)
               then data im ! nat (int y - (int th - int (height im)) div 2)
                            ! nat (int x - (int tw - int (width im)) div 2)
               else black im)
             [0..<tw]) [0..<th]\<rparr>"
  by (simp add: pad_image_eq[OF assms] expand_Inr)

text \<open>
  C2. Whenever the tile's row coordinate and both targets are found, \<open>pad_image\<close> returns
  the tile expanded by a border whose top is half the height difference rounded down and
  whose bottom is the rest, likewise left and right, so that bottom exceeds top and right
  exceeds left by exactly the remainder of the difference modulo 2; every pixel outside
  the pasted tile is the black fill; a tile of width 10 with target width 13 gets 1
  column on the left and 2 on the right.
\<close>

theorem pad_image_split_padding:
  assumes "coord_y_of im = Inr coord_y"
    and "getitem max_heights coord_y = Inr target_height"
    and "getitem max_widths coord_y = Inr target_width"
  shows "\<exists>pad_left pad_top pad_right pad_bottom out.
     pad_top = (int target_height - int (height im)) div 2 \<and>
     pad_bottom = (int target_height - int (height im)) - pad_top \<and>
     pad_left = (int target_width - int (width im)) div 2 \<and>
     pad_right = (int target_width - int (width im)) - pad_left \<and>
     pad_bottom - pad_top = (int target_height - int (height im)) mod 2 \<and>
     pad_right - pad_left = (int target_width - int (width im)) mod 2 \<and>
     pad_image black im max_heights max_widths = Inr out \<and>
     ImageOps_expand im (pad_left, pad_top, pad_right, pad_bottom) (black im) = Inr out \<and>
     width out = target_width \<and> height out = target_height \<and>
     length (data out) = target_height \<and>
     (\<forall>y<target_height. length (data out ! y) = target_width \<and>
        (\<forall>x<target_width.
           \<not> (pad_left \<le> int x \<and> int x < pad_left + int (width im) \<and>
              pad_top \<le> int y \<and> int y < pad_top + int (height im))
           \<longrightarrow> data out ! y ! x = black im)) \<and>
     (width im = 10 \<and> target_width = 13 \<longrightarrow> pad_left = 1 \<and> pad_right = 2)"
proof -
  let ?ph = "int target_height - int (height im)"
  let ?pw = "int target_width - int (width im)"
  have split: "?ph - ?ph div 2 - ?ph div 2 = ?ph mod 2" "?pw - ?pw div 2 - ?pw div 2 = ?pw mod 2"
    by presburger+
  have ex: "width im = 10 \<and> target_width = 13 \<longrightarrow> ?pw div 2 = 1 \<and> ?pw - ?pw div 2 = 2"
    by auto
  show ?thesis
    apply (rule exI[of _ "?pw div 2"], rule exI[of _ "?ph div 2"])
    apply (rule exI[of _ "?pw - ?pw div 2"], rule exI[of _ "?ph - ?ph div 2"])
    using split ex
    by (simp add: pad_image_eq[OF assms, symmetric] pad_image_Inr[OF assms])
qed

theorem pad_image_split_padding_witness:
  "coord_y_of strip10 = Inr 0 \<and> getitem [2::nat] 0 = Inr 2 \<and> getitem [13::nat] 0 = Inr 13 \<and>
   pad_image (\<lambda>im. 0) strip10 [2] [13] =
     Inr \<lparr>filename = [], format = [], width = 13, height = 2,
          data = [[0, 1, 2, 3, 4, 5, 6, 7, 8, 9, 10, 0, 0],
                  [0, 0, 0, 0, 0, 0, 0, 0, 0, 0, 0, 0, 0]]\<rparr>"
proof -
  have h1: "coord_y_of strip10 = Inr 0" by code_simp
  have h2: "getitem [2::nat] 0 = Inr 2" by code_simp
  have h3: "getitem [13::nat] 0 = Inr 13" by code_simp
  from pad_image_split_padding[OF h1 h2 h3, of "\<lambda>im. 0"]
  obtain pl pt pr pb out where
    b: "pt = (int 2 - int (height strip10)) div 2" "pb = (int 2 - int (height strip10)) - pt"
       "pl = (int 13 - int (width strip10)) div 2" "pr = (int 13 - int (width strip10)) - pl"
    and p: "pad_image (\<lambda>im. 0) strip10 [2] [13] = Inr out"
    and e: "ImageOps_expand strip10 (pl, pt, pr, pb) 0 = Inr out"
    by blast
  have "pl = 1" "pt = 0" "pr = 2" "pb = 1" using b by (simp_all add: strip10_def)
  moreover have "ImageOps_expand strip10 (1, 0, 2, 1) 0 =
     Inr \<lparr>filename = [], format = [], width = 13, height = 2,
          data = [[0, 1, 2, 3, 4, 5, 6, 7, 8, 9, 10, 0, 0],
                  [0, 0, 0, 0, 0, 0, 0, 0, 0, 0, 0, 0, 0]]\<rparr>"
    by code_simp
  ultimately show ?thesis using h1 h2 h3 p e by simp
qed

section \<open>Padding: the tile's pixels survive\<close>

lemma pad_image_shifted:
  assumes "coord_y_of im = Inr c" "getitem mh c = Inr th" "getitem mw c = Inr tw"
    and "height im \<le> th" "width im \<le> tw"
  shows "pad_image black im mh mw =
     Inr \<lparr>filename = [], format = [], width = tw, height = th,
          data = map (\<lambda>y. map (\<lambda>x.
               if (tw - width im) div 2 \<le> x \<and> x < (tw - width im) div 2 + width im \<and>
                  (th - height im) div 2 \<le> y \<and> y < (th - height im) div 2 + height im
               then data im ! (y - (th - height im) div 2) ! (x - (tw - width im) div 2)
               else black im)
             [0..<tw]) [0..<th]\<rparr>"
proof -
  have pl: "(int tw - int (width im)) div 2 = int ((tw - width im) div 2)"
    using assms(5) by (simp add: of_nat_diff zdiv_int)
  have pt: "(int th - int (height im)) div 2 = int ((th - height im) div 2)"
    using assms(4) by (simp add: of_nat_diff zdiv_int)
  show ?thesis
    unfolding pad_image_Inr[OF assms(1-3)] pl pt
    by (auto simp: nat_diff_distrib' intro!: nth_equalityI)
qed

text \<open>
  C3. Padding keeps the tile's pixels: in the tile that \<open>pad_image\<close> returns, every pixel
  that lies in the box of the original width and height at the offset
  (pad_left, pad_top) is the original pixel at that place. When both targets are at least
  the tile's own size, so that the tile is padded and not cut, that box lies inside the
  padded tile, and cropping it gives back the original pixel buffer exactly.
\<close>

theorem pad_image_crop_back:
  assumes "coord_y_of im = Inr coord_y"
    and "getitem max_heights coord_y = Inr target_height"
    and "getitem max_widths coord_y = Inr target_width"
    and "wf_image im"
  shows "\<exists>out pad_left pad_top.
     pad_image black im max_heights max_widths = Inr out \<and>
     pad_left = (int target_width - int (width im)) div 2 \<and>
     pad_top = (int target_height - int (height im)) div 2 \<and>
     (\<forall>y<height out. \<forall>x<width out.
         pad_left \<le> int x \<and> int x < pad_left + int (width im) \<and>
         pad_top \<le> int y \<and> int y < pad_top + int (height im) \<longrightarrow>
         data out ! y ! x = data im ! nat (int y - pad_top) ! nat (int x - pad_left)) \<and>
     (height im \<le> target_height \<and> width im \<le> target_width \<longrightarrow>
         0 \<le> pad_left \<and> 0 \<le> pad_top \<and>
         crop out (nat pad_left) (nat pad_top) (width im) (height im) = data im)"
proof -
  let ?pl = "(int target_width - int (width im)) div 2"
  let ?pt = "(int target_height - int (height im)) div 2"
  let ?out = "\<lparr>filename = [], format = [], width = target_width, height = target_height,
          data = map (\<lambda>y. map (\<lambda>x.
               if 0 \<le> int x - ?pl \<and> int x - ?pl < int (width im) \<and>
                  0 \<le> int y - ?pt \<and> int y - ?pt < int (height im)
               then data im ! nat (int y - ?pt) ! nat (int x - ?pl)
               else black im)
             [0..<target_width]) [0..<target_height]\<rparr>"
  have out: "pad_image black im max_heights max_widths = Inr ?out"
    by (rule pad_image_Inr[OF assms(1-3)])
  have px: "\<forall>y<height ?out. \<forall>x<width ?out.
         ?pl \<le> int x \<and> int x < ?pl + int (width im) \<and> ?pt \<le> int y \<and> int y < ?pt + int (height im) \<longrightarrow>
         data ?out ! y ! x = data im ! nat (int y - ?pt) ! nat (int x - ?pl)"
    by simp
  have cr: "0 \<le> ?pl \<and> 0 \<le> ?pt \<and> crop ?out (nat ?pl) (nat ?pt) (width im) (height im) = data im"
    if le: "height im \<le> target_height \<and> width im \<le> target_width"
  proof -
    have len: "length (data im) = height im"
      and rows: "\<And>y. y < height im \<Longrightarrow> length (data im ! y) = width im"
      using assms(4) by (auto simp: wf_image_def list_all_length)
    have pl: "?pl = int ((target_width - width im) div 2)"
      using le by (simp add: of_nat_diff zdiv_int)
    have pt: "?pt = int ((target_height - height im) div 2)"
      using le by (simp add: of_nat_diff zdiv_int)
    let ?l = "(target_width - width im) div 2"
    let ?t = "(target_height - height im) div 2"
    from pad_image_shifted[OF assms(1-3), of black] le out
    have d: "data ?out = map (\<lambda>y. map (\<lambda>x.
               if ?l \<le> x \<and> x < ?l + width im \<and> ?t \<le> y \<and> y < ?t + height im
               then data im ! (y - ?t) ! (x - ?l) else black im)
             [0..<target_width]) [0..<target_height]"
      by simp
    have "crop ?out ?l ?t (width im) (height im) = data im"
      unfolding crop_def d using le len rows by (auto simp: list_eq_iff_nth_eq)
    then show ?thesis unfolding pl pt by simp
  qed
  from out px cr show ?thesis by blast
qed

theorem pad_image_crop_back_witness:
  "coord_y_of strip10 = Inr 0 \<and> getitem [2::nat] 0 = Inr 2 \<and> getitem [13::nat] 0 = Inr 13 \<and>
   wf_image strip10 \<and> height strip10 \<le> 2 \<and> width strip10 \<le> 13 \<and>
   crop \<lparr>filename = [], format = [], width = 13, height = 2,
          data = [[0, 1, 2, 3, 4, 5, 6, 7, 8, 9, 10, 0, 0],
                  [0, 0, 0, 0, 0, 0, 0, 0, 0, 0, 0, 0, 0]]\<rparr> 1 0 10 1 = data strip10"
proof -
  have h1: "coord_y_of strip10 = Inr 0" by code_simp
  have h2: "getitem [2::nat] 0 = Inr 2" by code_simp
  have h3: "getitem [13::nat] 0 = Inr 13" by code_simp
  have h4: "wf_image strip10" by code_simp
  have h5: "height strip10 \<le> 2 \<and> width strip10 \<le> 13" by (simp add: strip10_def)
  from pad_image_crop_back[OF h1 h2 h3 h4, of "\<lambda>im. 0"] h5
  obtain out pl pt where p: "pad_image (\<lambda>im. 0) strip10 [2] [13] = Inr out"
    and o: "pl = (int 13 - int (width strip10)) div 2"
           "pt = (int 2 - int (height strip10)) div 2"
    and c: "crop out (nat pl) (nat pt) (width strip10) (height strip10) = data strip10"
    by blast
  have "nat pl = 1" "nat pt = 0" using o by (simp_all add: strip10_def)
  moreover have "pad_image (\<lambda>im. 0) strip10 [2] [13] =
     Inr \<lparr>filename = [], format = [], width = 13, height = 2,
          data = [[0, 1, 2, 3, 4, 5, 6, 7, 8, 9, 10, 0, 0],
                  [0, 0, 0, 0, 0, 0, 0, 0, 0, 0, 0, 0, 0]]\<rparr>"
    by code_simp
  moreover have "width strip10 = 10" "height strip10 = 1" by (simp_all add: strip10_def)
  ultimately show ?thesis using h1 h2 h3 h4 h5 p c by simp
qed

section \<open>Grouping: the empty collection\<close>

text \<open>
  C9. For an empty input collection the grouping returns exactly one row group, and that
  row group is empty.
\<close>

theorem group_images_empty: "group_images [] ext = Inr [[]]"
  by (simp add: group_images_def natsorted_def)

section \<open>The dimension tables\<close>

lemma py_index_less: "py_index n i = Some k \<Longrightarrow> k < n"
  by (auto simp: py_index_def Let_def split: if_splits)

lemma py_index_nat [simp]: "py_index n (int i) = (if i < n then Some i else None)"
  by (auto simp: py_index_def)

lemma getitem_Inr: "getitem xs i = Inr v \<longleftrightarrow> (\<exists>k. py_index (length xs) i = Some k \<and> v = xs ! k)"
  by (auto simp: getitem_def split: option.splits)

lemma setitem_Inr: "setitem xs i v = Inr ys \<longleftrightarrow> (\<exists>k. py_index (length xs) i = Some k \<and> ys = xs[k := v])"
  by (auto simp: setitem_def split: option.splits)

lemma update_tables_Inr:
  assumes "update_tables i im (mh, mw) = Inr (mh', mw')"
  shows "\<exists>k. row_key (length mh) im = Some k \<and> k < length mh \<and> i < length mw \<and>
             mh' = mh[k := max (mh ! k) (height im)] \<and> mw' = mw[i := max (mw ! i) (width im)]"
  using assms
  by (auto simp: update_tables_def row_key_def Let_def getitem_Inr setitem_Inr
           split: sum.splits if_splits dest: py_index_less)

lemma scan_tiles:
  assumes "fold_err (update_tables i) ims (mh, mw) = Inr (mh', mw')"
  shows "length mh' = length mh \<and> length mw' = length mw \<and>
     (\<forall>k<length mh. mh' ! k = fold max [height t. t \<leftarrow> ims, row_key (length mh) t = Some k] (mh ! k)) \<and>
     (\<forall>j<length mw. mw' ! j = (if j = i then fold max (map width ims) (mw ! j) else mw ! j))"
  using assms
proof (induction ims arbitrary: mh mw)
  case Nil
  then show ?case by simp
next
  case (Cons t ims)
  from Cons.prems obtain mh1 mw1 where
    u: "update_tables i t (mh, mw) = Inr (mh1, mw1)"
    and r: "fold_err (update_tables i) ims (mh1, mw1) = Inr (mh', mw')"
    by (auto split: sum.splits)
  from update_tables_Inr[OF u] obtain k where
    k: "row_key (length mh) t = Some k" "k < length mh" "i < length mw"
       "mh1 = mh[k := max (mh ! k) (height t)]" "mw1 = mw[i := max (mw ! i) (width t)]"
    by blast
  have l: "length mh1 = length mh" "length mw1 = length mw" using k by simp_all
  from Cons.IH[OF r] l have
    ih: "length mh' = length mh" "length mw' = length mw"
      "\<And>k. k < length mh \<Longrightarrow> mh' ! k = fold max [height t. t \<leftarrow> ims, row_key (length mh) t = Some k] (mh1 ! k)"
      "\<And>j. j < length mw \<Longrightarrow> mw' ! j = (if j = i then fold max (map width ims) (mw1 ! j) else mw1 ! j)"
    by auto
  show ?case
    using ih k by (auto simp: nth_list_update max.commute[of "height t"] max.commute[of "width t"])
qed

lemma enumerate_Cons: "enumerate i (x # xs) = (i, x) # enumerate (Suc i) xs"
  by simp

lemma scan_group_pair:
  "scan_group fs (i, g) tables =
     (case map_err (Image_open fs) g of Inl e \<Rightarrow> Inl e
      | Inr images \<Rightarrow> fold_err (update_tables i) images tables)"
  by (simp add: scan_group_def)

lemma scan_groups:
  assumes "fold_err (scan_group fs) (enumerate i0 gs) (mh, mw) = Inr (mh', mw')"
  shows "\<exists>tiles. map_err (map_err (Image_open fs)) gs = Inr tiles \<and>
     length mh' = length mh \<and> length mw' = length mw \<and>
     (\<forall>k<length mh. mh' ! k =
        fold max [height t. t \<leftarrow> concat tiles, row_key (length mh) t = Some k] (mh ! k)) \<and>
     (\<forall>j<length mw. mw' ! j =
        (if i0 \<le> j \<and> j < i0 + length gs then fold max (map width (tiles ! (j - i0))) (mw ! j)
         else mw ! j))"
  using assms
proof (induction gs arbitrary: i0 mh mw)
  case Nil
  then show ?case by simp
next
  case (Cons g gs)
  from Cons.prems obtain ims mh1 mw1 where
    o: "map_err (Image_open fs) g = Inr ims"
    and u: "fold_err (update_tables i0) ims (mh, mw) = Inr (mh1, mw1)"
    and r: "fold_err (scan_group fs) (enumerate (Suc i0) gs) (mh1, mw1) = Inr (mh', mw')"
    by (auto simp: scan_group_pair split: sum.splits)
  from scan_tiles[OF u] have
    s: "length mh1 = length mh" "length mw1 = length mw"
       "\<And>k. k < length mh \<Longrightarrow> mh1 ! k = fold max [height t. t \<leftarrow> ims, row_key (length mh) t = Some k] (mh ! k)"
       "\<And>j. j < length mw \<Longrightarrow> mw1 ! j = (if j = i0 then fold max (map width ims) (mw ! j) else mw ! j)"
    by auto
  from Cons.IH[OF r] s(1,2) obtain tiles where
    t: "map_err (map_err (Image_open fs)) gs = Inr tiles"
       "length mh' = length mh" "length mw' = length mw"
       "\<And>k. k < length mh \<Longrightarrow> mh' ! k =
           fold max [height t. t \<leftarrow> concat tiles, row_key (length mh) t = Some k] (mh1 ! k)"
       "\<And>j. j < length mw \<Longrightarrow> mw' ! j =
        (if Suc i0 \<le> j \<and> j < Suc i0 + length gs then fold max (map width (tiles ! (j - Suc i0))) (mw1 ! j)
         else mw1 ! j)"
    by auto
  have m: "map_err (map_err (Image_open fs)) (g # gs) = Inr (ims # tiles)"
    using o t(1) by simp
  have w: "\<And>j. j < length mw \<Longrightarrow> mw' ! j =
        (if i0 \<le> j \<and> j < i0 + length (g # gs) then fold max (map width ((ims # tiles) ! (j - i0))) (mw ! j)
         else mw ! j)"
    using t(5) s(4) by (auto simp: nth_Cons' Suc_diff_Suc)
  have h: "\<And>k. k < length mh \<Longrightarrow> mh' ! k =
           fold max [height t. t \<leftarrow> concat (ims # tiles), row_key (length mh) t = Some k] (mh ! k)"
    using t(4) s(3) by simp
  from m t(2,3) w h show ?case by blast
qed

lemma dimension_tables_Inr:
  assumes "dimension_tables fs g = Inr (mh, mw)"
  shows "\<exists>tiles. map_err (map_err (Image_open fs)) g = Inr tiles \<and>
     length mh = length g \<and> length mw = length g \<and>
     (\<forall>k<length g. mh ! k = fold max [height t. t \<leftarrow> concat tiles, row_key (length g) t = Some k] 0 \<and>
                    mw ! k = fold max (map width (tiles ! k)) 0)"
  using scan_groups[OF assms[unfolded dimension_tables_def]] by auto

lemma fold_max_Max: "fold max xs (a::nat) = Max (set (a # xs))"
  by (rule Max.set_eq_fold[symmetric])

text \<open>
  C4. One step of the pass over all tiles writes the max-height table at the tile's row
  coordinate (read as a Python index) and the max-width table at the index \<open>i\<close> of the
  enclosing group in the enumeration, both in the same step. After the pass, entry \<open>k\<close>
  of the max-height table is the largest height among the tiles (of any group) whose
  row coordinate is \<open>k\<close>, and entry \<open>k\<close> of the max-width table is the largest width
  among the tiles of the group at position \<open>k\<close>.
\<close>

theorem dimension_tables_keys:
  "(\<forall>i im max_heights max_widths max_heights' max_widths'.
      update_tables i (im :: 'p image) (max_heights, max_widths) = Inr (max_heights', max_widths') \<longrightarrow>
      (\<exists>k. row_key (length max_heights) im = Some k \<and>
           max_heights' = max_heights[k := max (max_heights ! k) (height im)] \<and>
           max_widths' = max_widths[i := max (max_widths ! i) (width im)])) \<and>
   (\<forall>max_heights max_widths.
      dimension_tables (fs :: string \<Rightarrow> 'p disk_file) grouped_images = Inr (max_heights, max_widths) \<longrightarrow>
      (\<exists>tiles. map_err (map_err (Image_open fs)) grouped_images = Inr tiles \<and>
         length max_heights = length grouped_images \<and>
         length max_widths = length grouped_images \<and>
         (\<forall>k<length grouped_images.
            max_heights ! k =
              Max (set (0 # [height t. t \<leftarrow> concat tiles, row_key (length grouped_images) t = Some k])) \<and>
            max_widths ! k = Max (set (0 # map width (tiles ! k))))))"
proof (intro conjI allI impI)
  fix i and im :: "'p image" and mh mw mh' mw'
  assume "update_tables i im (mh, mw) = Inr (mh', mw')"
  from update_tables_Inr[OF this]
  show "\<exists>k. row_key (length mh) im = Some k \<and> mh' = mh[k := max (mh ! k) (height im)] \<and>
            mw' = mw[i := max (mw ! i) (width im)]"
    by blast
next
  fix mh mw
  assume "dimension_tables fs grouped_images = Inr (mh, mw)"
  from dimension_tables_Inr[OF this]
  show "\<exists>tiles. map_err (map_err (Image_open fs)) grouped_images = Inr tiles \<and>
         length mh = length grouped_images \<and> length mw = length grouped_images \<and>
         (\<forall>k<length grouped_images.
            mh ! k = Max (set (0 # [height t. t \<leftarrow> concat tiles, row_key (length grouped_images) t = Some k])) \<and>
            mw ! k = Max (set (0 # map width (tiles ! k))))"
    unfolding fold_max_Max by blast
qed

theorem dimension_tables_keys_witness:
  "dimension_tables fs_swapped [[''a_1_0.png''], [''a_0_0.png'']] = Inr ([3, 2], [4, 5]) \<and>
   row_key 2 ((solid 4 2 7)\<lparr>filename := ''a_1_0.png''\<rparr>) = Some 1 \<and>
   row_key 2 ((solid 5 3 8)\<lparr>filename := ''a_0_0.png''\<rparr>) = Some 0 \<and>
   (\<exists>tiles.
      tiles = [[(solid 4 2 7)\<lparr>filename := ''a_1_0.png''\<rparr>], [(solid 5 3 8)\<lparr>filename := ''a_0_0.png''\<rparr>]] \<and>
      map_err (map_err (Image_open fs_swapped)) [[''a_1_0.png''], [''a_0_0.png'']] = Inr tiles \<and>
      (\<forall>k<2.
         [3, 2] ! k = Max (set (0 # [height t. t \<leftarrow> concat tiles, row_key 2 t = Some k])) \<and>
         [4, 5] ! k = Max (set (0 # map width (tiles ! k)))))"
proof -
  let ?g = "[[''a_1_0.png''], [''a_0_0.png'']]"
  let ?t1 = "(solid 4 2 7)\<lparr>filename := ''a_1_0.png''\<rparr>"
  let ?t0 = "(solid 5 3 8)\<lparr>filename := ''a_0_0.png''\<rparr>"
  have d: "dimension_tables fs_swapped ?g = Inr ([3, 2], [4, 5])" by code_simp
  have o: "map_err (map_err (Image_open fs_swapped)) ?g = Inr [[?t1], [?t0]]" by code_simp
  have r: "row_key 2 ?t1 = Some 1" "row_key 2 ?t0 = Some 0" by code_simp+
  have l: "length ?g = 2" by simp
  from dimension_tables_keys[of fs_swapped ?g] d
  obtain tiles where t: "map_err (map_err (Image_open fs_swapped)) ?g = Inr tiles"
    and k: "\<forall>k<length ?g. [3, 2] ! k = Max (set (0 # [height t. t \<leftarrow> concat tiles, row_key (length ?g) t = Some k])) \<and>
            [4, 5] ! k = Max (set (0 # map width (tiles ! k)))"
    by blast
  from t o have tiles: "tiles = [[?t1], [?t0]]" by simp
  from d r tiles t k[unfolded l] show ?thesis by blast
qed

section \<open>Loops that stop at the first exception\<close>

lemma map_err_Inr_map:
  "(\<And>x. x \<in> set xs \<Longrightarrow> f x = Inr (g x)) \<Longrightarrow> map_err f xs = Inr (map g xs)"
  by (induction xs) auto

lemma map_err_Inr_iff: "map_err f xs = Inr ys \<longleftrightarrow> list_all2 (\<lambda>x y. f x = Inr y) xs ys"
proof (induction xs arbitrary: ys)
  case Nil
  then show ?case by auto
next
  case (Cons x xs)
  show ?case
    by (cases "f x"; cases "map_err f xs")
       (auto simp: list_all2_Cons1 Cons.IH[symmetric])
qed

lemma map_err_Inr_set:
  "map_err f xs = Inr ys \<Longrightarrow> y \<in> set ys \<Longrightarrow> \<exists>x\<in>set xs. f x = Inr y"
  by (induction xs arbitrary: ys) (auto split: sum.splits)

lemma map_err_Inr_nth:
  "map_err f xs = Inr ys \<Longrightarrow> length ys = length xs \<and> (\<forall>i<length xs. f (xs ! i) = Inr (ys ! i))"
  by (simp add: map_err_Inr_iff list_all2_conv_all_nth)

lemma map_err_Inl: "map_err f xs = Inl e \<Longrightarrow> \<exists>x\<in>set xs. f x = Inl e"
  by (induction xs) (auto split: sum.splits)

lemma map_err_total:
  "(\<And>x. x \<in> set xs \<Longrightarrow> \<exists>y. f x = Inr y) \<Longrightarrow> \<exists>ys. map_err f xs = Inr ys"
proof (induction xs)
  case Nil
  then show ?case by simp
next
  case (Cons x xs)
  then obtain y ys where "f x = Inr y" "map_err f xs = Inr ys"
    by (metis list.set_intros(1) list.set_intros(2))
  then show ?case by simp
qed

section \<open>Row coordinates that agree with group positions\<close>

lemma rows_aligned_nth:
  "rows_aligned fs g \<longleftrightarrow>
     (\<forall>i<length g. \<forall>p\<in>set (g ! i). \<exists>im. Image_open fs p = Inr im \<and> coord_y_of im = Inr (int i))"
proof -
  have q: "\<And>p i. (case Image_open fs p of Inl e \<Rightarrow> False | Inr im \<Rightarrow> coord_y_of im = Inr (int i)) \<longleftrightarrow>
            (\<exists>im. Image_open fs p = Inr im \<and> coord_y_of im = Inr (int i))"
    by (auto split: sum.splits)
  show ?thesis
    unfolding rows_aligned_def
    by (subst list_all_length) (simp add: nth_enumerate_eq list_all_iff q)
qed

lemma update_tables_aligned:
  assumes "coord_y_of im = Inr (int i)" "i < length mh" "i < length mw"
  shows "update_tables i im (mh, mw) =
           Inr (mh[i := max (mh ! i) (height im)], mw[i := max (mw ! i) (width im)])"
  using assms by (simp add: update_tables_def getitem_def setitem_def)

lemma scan_tiles_aligned:
  assumes "\<forall>t\<in>set ims. coord_y_of t = Inr (int i)" "i < length mh" "i < length mw"
  shows "\<exists>mh' mw'. fold_err (update_tables i) ims (mh, mw) = Inr (mh', mw') \<and>
            length mh' = length mh \<and> length mw' = length mw"
  using assms
proof (induction ims arbitrary: mh mw)
  case Nil
  then show ?case by simp
next
  case (Cons t ims)
  have u: "update_tables i t (mh, mw) =
           Inr (mh[i := max (mh ! i) (height t)], mw[i := max (mw ! i) (width t)])"
    using Cons.prems by (simp add: update_tables_aligned)
  from Cons.IH[of "mh[i := max (mh ! i) (height t)]" "mw[i := max (mw ! i) (width t)]"] Cons.prems
  show ?case unfolding fold_err.simps u by simp
qed

lemma scan_groups_aligned:
  assumes "\<forall>j<length gs. \<forall>p\<in>set (gs ! j). \<exists>im. Image_open fs p = Inr im \<and> coord_y_of im = Inr (int (i0 + j))"
    and "i0 + length gs \<le> length mh" "length mw = length mh"
  shows "\<exists>mh' mw'. fold_err (scan_group fs) (enumerate i0 gs) (mh, mw) = Inr (mh', mw')"
  using assms
proof (induction gs arbitrary: i0 mh mw)
  case Nil
  then show ?case by simp
next
  case (Cons g gs)
  have g: "\<forall>p\<in>set g. \<exists>im. Image_open fs p = Inr im \<and> coord_y_of im = Inr (int i0)"
    using Cons.prems(1)[rule_format, of 0] by simp
  then obtain ims where o: "map_err (Image_open fs) g = Inr ims"
    using map_err_total[of g "Image_open fs"] by blast
  have "\<forall>t\<in>set ims. coord_y_of t = Inr (int i0)"
    using g map_err_Inr_set[OF o] by fastforce
  from scan_tiles_aligned[OF this, of mh mw] Cons.prems(2,3)
  obtain mh1 mw1 where s: "fold_err (update_tables i0) ims (mh, mw) = Inr (mh1, mw1)"
    "length mh1 = length mh" "length mw1 = length mw"
    by auto
  have r: "\<forall>j<length gs. \<forall>p\<in>set (gs ! j). \<exists>im. Image_open fs p = Inr im \<and> coord_y_of im = Inr (int (Suc i0 + j))"
    using Cons.prems(1) by (metis Suc_less_eq add_Suc_shift length_Cons nth_Cons_Suc)
  from Cons.IH[OF r, of mh1 mw1] s Cons.prems(2,3)
  obtain mh' mw' where "fold_err (scan_group fs) (enumerate (Suc i0) gs) (mh1, mw1) = Inr (mh', mw')"
    by auto
  then show ?case using o s(1) by (simp add: scan_group_pair)
qed

lemma dimension_tables_aligned:
  assumes "rows_aligned fs g"
  shows "\<exists>mh mw. dimension_tables fs g = Inr (mh, mw) \<and> length mh = length g \<and> length mw = length g"
proof -
  from assms have "\<forall>j<length g. \<forall>p\<in>set (g ! j). \<exists>im. Image_open fs p = Inr im \<and> coord_y_of im = Inr (int (0 + j))"
    by (simp add: rows_aligned_nth)
  from scan_groups_aligned[OF this, of "replicate (length g) 0" "replicate (length g) 0"]
  obtain mh mw where d: "dimension_tables fs g = Inr (mh, mw)"
    by (auto simp: dimension_tables_def)
  with dimension_tables_Inr[OF d] show ?thesis by auto
qed

section \<open>Row strips of different widths\<close>

text \<open>
  C8. When both loops of \<open>merge\<close> have run and the row strips they produced do not all
  have the same width, \<open>merge\<close> raises the ValueError of the vertical concatenation: no
  image is returned, and nothing before that point has looked at the strips' widths.
\<close>

theorem merge_mismatched_strips:
  assumes "dimension_tables fs grouped_images = Inr (max_heights, max_widths)"
    and "map_err (horizontal_part black fs max_heights max_widths) grouped_images = Inr horizontal_parts"
    and "\<exists>a\<in>set horizontal_parts. \<exists>b\<in>set horizontal_parts. width a \<noteq> width b"
  shows "np_vstack (map np_asarray horizontal_parts) = Inl (ValueError DimensionMismatch) \<and>
         merge black fs grouped_images = Inl (ValueError DimensionMismatch)"
proof -
  from assms(3) have ne: "horizontal_parts \<noteq> []" by auto
  from assms(3) have "\<exists>a\<in>set horizontal_parts. width a \<noteq> width (hd horizontal_parts)"
    by metis
  then have "list_ex (\<lambda>a. ncols a \<noteq> ncols (hd (map np_asarray horizontal_parts))) (map np_asarray horizontal_parts)"
    using ne by (auto simp: list_ex_iff np_asarray_def hd_map)
  then have v: "np_vstack (map np_asarray horizontal_parts) = Inl (ValueError DimensionMismatch)"
    using ne by (simp add: np_vstack_def)
  then show ?thesis
    using assms(1,2) by (simp add: merge_def)
qed

theorem merge_mismatched_strips_witness:
  "dimension_tables fs_grid [[''d/a_0_0.png'', ''d/a_0_1.png''], [''d/a_1_0.png'']] = Inr ([2, 1], [3, 2]) \<and>
   map_err (horizontal_part (\<lambda>im. 0) fs_grid [2, 1] [3, 2]) [[''d/a_0_0.png'', ''d/a_0_1.png''], [''d/a_1_0.png'']] =
     Inr [\<lparr>filename = [], format = [], width = 6, height = 2,
            data = [[1, 1, 0, 2, 2, 2], [0, 0, 0, 2, 2, 2]]\<rparr>,
          \<lparr>filename = [], format = [], width = 2, height = 1, data = [[3, 3]]\<rparr>] \<and>
   merge (\<lambda>im. 0) fs_grid [[''d/a_0_0.png'', ''d/a_0_1.png''], [''d/a_1_0.png'']] = Inl (ValueError DimensionMismatch)"
proof -
  let ?g = "[[''d/a_0_0.png'', ''d/a_0_1.png''], [''d/a_1_0.png'']]"
  let ?a = "\<lparr>filename = [], format = [], width = 6, height = 2,
            data = [[1, 1, 0, 2, 2, 2], [0, 0, 0, 2, 2, 2::nat]]\<rparr>"
  let ?b = "\<lparr>filename = [], format = [], width = 2, height = 1, data = [[3, 3::nat]]\<rparr>"
  have d: "dimension_tables fs_grid ?g = Inr ([2, 1], [3, 2])" by code_simp
  have h: "map_err (horizontal_part (\<lambda>im. 0) fs_grid [2, 1] [3, 2]) ?g = Inr [?a, ?b]" by code_simp
  have w: "\<exists>a\<in>set [?a, ?b]. \<exists>b\<in>set [?a, ?b]. width a \<noteq> width b"
    by (rule bexI[of _ ?a], rule bexI[of _ ?b]) simp_all
  from merge_mismatched_strips[OF d h w] d h show ?thesis by simp
qed

section \<open>The second loop\<close>

lemma np_hstack_error:
  "np_hstack arrays = Inl e \<Longrightarrow> e = ValueError NeedOneArray \<or> e = ValueError DimensionMismatch"
  unfolding np_hstack_def by (simp split: if_splits)

lemma np_vstack_error:
  "np_vstack arrays = Inl e \<Longrightarrow> e = ValueError NeedOneArray \<or> e = ValueError DimensionMismatch"
  unfolding np_vstack_def by (simp split: if_splits)

lemma pad_image_aligned:
  assumes "coord_y_of im = Inr (int i)" "i < length mh" "i < length mw"
  shows "\<exists>out. pad_image black im mh mw = Inr out \<and> height out = mh ! i \<and> width out = mw ! i"
proof -
  have "getitem mh (int i) = Inr (mh ! i)" "getitem mw (int i) = Inr (mw ! i)"
    using assms by (simp_all add: getitem_def)
  from pad_image_Inr[OF assms(1) this] show ?thesis by simp
qed

lemma horizontal_part_aligned:
  assumes "\<forall>p\<in>set g. \<exists>im. Image_open fs p = Inr im \<and> coord_y_of im = Inr (int i)"
    and "i < length mh" "i < length mw"
    and "horizontal_part black fs mh mw g = Inl e"
  shows "e = ValueError NeedOneArray \<or> e = ValueError DimensionMismatch"
proof -
  from assms(1) obtain ims where o: "map_err (Image_open fs) g = Inr ims"
    using map_err_total[of g "Image_open fs"] by blast
  have c: "coord_y_of t = Inr (int i)" if "t \<in> set ims" for t
  proof -
    from map_err_Inr_set[OF o that] obtain p where "p \<in> set g" "Image_open fs p = Inr t"
      by blast
    with assms(1) show ?thesis by fastforce
  qed
  have "\<exists>out. pad_image black t mh mw = Inr out" if "t \<in> set ims" for t
    using pad_image_aligned[OF c[OF that] assms(2,3), of black] by blast
  from map_err_total[of ims "\<lambda>im. pad_image black im mh mw", OF this]
  obtain padded where p: "map_err (\<lambda>im. pad_image black im mh mw) ims = Inr padded"
    by blast
  have "horizontal_part black fs mh mw g =
          (case np_hstack (map np_asarray padded) of Inl e \<Rightarrow> Inl e | Inr a \<Rightarrow> Inr (Image_fromarray a))"
    by (simp add: horizontal_part_def o p)
  with assms(4) have "np_hstack (map np_asarray padded) = Inl e"
    by (cases "np_hstack (map np_asarray padded)") simp_all
  then show ?thesis by (rule np_hstack_error)
qed

lemma merge_aligned_errors:
  assumes "rows_aligned fs g" "merge black fs g = Inl e"
  shows "e = ValueError NeedOneArray \<or> e = ValueError DimensionMismatch"
proof -
  from dimension_tables_aligned[OF assms(1)] obtain mh mw where
    d: "dimension_tables fs g = Inr (mh, mw)" "length mh = length g" "length mw = length g"
    by blast
  have m: "merge black fs g =
     (case map_err (horizontal_part black fs mh mw) g of
        Inl e \<Rightarrow> Inl e
      | Inr horizontal_parts \<Rightarrow>
         (case np_vstack (map np_asarray horizontal_parts) of
            Inl e \<Rightarrow> Inl e
          | Inr full_image \<Rightarrow> Inr (Image_fromarray full_image)))"
    unfolding merge_def d(1) by simp
  show ?thesis
  proof (cases "map_err (horizontal_part black fs mh mw) g")
    case (Inl e')
    then have e: "e' = e" using assms(2) unfolding m by simp
    from map_err_Inl[OF Inl] obtain grp where
      grp: "grp \<in> set g" "horizontal_part black fs mh mw grp = Inl e'"
      by blast
    then obtain i where i: "i < length g" "grp = g ! i" by (auto simp: in_set_conv_nth)
    have a: "\<forall>p\<in>set grp. \<exists>im. Image_open fs p = Inr im \<and> coord_y_of im = Inr (int i)"
      using assms(1) i by (simp add: rows_aligned_nth)
    have "i < length mh" "i < length mw" using i d by simp_all
    from horizontal_part_aligned[OF a this grp(2)] e show ?thesis by simp
  next
    case (Inr parts)
    with assms(2) have "np_vstack (map np_asarray parts) = Inl e"
      unfolding m by (cases "np_vstack (map np_asarray parts)") simp_all
    then show ?thesis by (rule np_vstack_error)
  qed
qed

lemma horizontal_part_empty: "horizontal_part black fs mh mw [] = Inl (ValueError NeedOneArray)"
  by (simp add: horizontal_part_def np_hstack_def)

lemma merge_first_group_empty:
  "merge black fs ([] # gs) =
     (case dimension_tables fs ([] # gs) of
        Inl e \<Rightarrow> Inl e
      | Inr tables \<Rightarrow> Inl (ValueError NeedOneArray))"
proof (cases "dimension_tables fs ([] # gs)")
  case (Inl e)
  then show ?thesis by (simp add: merge_def)
next
  case (Inr t)
  obtain mh mw where "t = (mh, mw)" by (cases t)
  with Inr show ?thesis by (simp add: merge_def horizontal_part_empty)
qed

section \<open>Uniform grids\<close>

lemma sum_list_const: "(\<And>x. x \<in> set xs \<Longrightarrow> f x = (c::nat)) \<Longrightarrow> sum_list (map f xs) = length xs * c"
  by (induction xs) auto

lemma fold_max_const:
  assumes "xs \<noteq> []" "\<And>x. x \<in> set xs \<Longrightarrow> x = (c::nat)"
  shows "fold max xs 0 = c"
proof -
  have "set xs = {c}" using assms by (cases xs) auto
  then show ?thesis by (simp add: fold_max_Max)
qed

lemma pad_image_same_size:
  assumes "coord_y_of im = Inr (int i)" "i < length mh" "i < length mw"
    and "mh ! i = height im" "mw ! i = width im"
    and "length (data im) = height im" "\<And>r. r \<in> set (data im) \<Longrightarrow> length r = width im"
  shows "pad_image black im mh mw =
           Inr \<lparr>filename = [], format = [], width = width im, height = height im, data = data im\<rparr>"
proof -
  have g: "getitem mh (int i) = Inr (height im)" "getitem mw (int i) = Inr (width im)"
    using assms(2-5) by (simp_all add: getitem_def)
  have "map (\<lambda>y. map (\<lambda>x.
               if (width im - width im) div 2 \<le> x \<and> x < (width im - width im) div 2 + width im \<and>
                  (height im - height im) div 2 \<le> y \<and> y < (height im - height im) div 2 + height im
               then data im ! (y - (height im - height im) div 2) ! (x - (width im - width im) div 2)
               else black im)
             [0..<width im]) [0..<height im] = data im"
    using assms(6,7) by (auto intro!: nth_equalityI)
  then show ?thesis
    unfolding pad_image_shifted[OF assms(1) g order_refl order_refl] by simp
qed


lemma np_hstack_uniform:
  assumes "arrays \<noteq> []" "\<And>a. a \<in> set arrays \<Longrightarrow> nrows a = h \<and> ncols a = w"
  shows "np_hstack arrays =
           Inr \<lparr>nrows = h, ncols = length arrays * w,
                cells = map (\<lambda>y. concat (map (\<lambda>a. cells a ! y) arrays)) [0..<h]\<rparr>"
proof -
  have h: "nrows (hd arrays) = h" using assms by (cases arrays) auto
  have n: "\<not> list_ex (\<lambda>a. nrows a \<noteq> nrows (hd arrays)) arrays"
    using assms(2) h by (simp add: list_ex_iff)
  have "sum_list (map ncols arrays) = length arrays * w"
    using assms(2) by (intro sum_list_const) simp
  then show ?thesis using assms(1) h n by (simp add: np_hstack_def)
qed

lemma np_vstack_uniform:
  assumes "arrays \<noteq> []" "\<And>a. a \<in> set arrays \<Longrightarrow> nrows a = h \<and> ncols a = w"
  shows "np_vstack arrays =
           Inr \<lparr>nrows = length arrays * h, ncols = w, cells = concat (map cells arrays)\<rparr>"
proof -
  have w: "ncols (hd arrays) = w" using assms by (cases arrays) auto
  have n: "\<not> list_ex (\<lambda>a. ncols a \<noteq> ncols (hd arrays)) arrays"
    using assms(2) w by (simp add: list_ex_iff)
  have "sum_list (map nrows arrays) = length arrays * h"
    using assms(2) by (intro sum_list_const) simp
  then show ?thesis using assms(1) w n by (simp add: np_vstack_def)
qed


lemma uniform_grid_nth:
  "uniform_grid fs g R C W H \<longleftrightarrow>
     length g = R \<and> 0 < R \<and> 0 < C \<and>
     (\<forall>i<R. length (g ! i) = C \<and>
        (\<forall>p\<in>set (g ! i). \<exists>im. Image_open fs p = Inr im \<and> wf_image im \<and>
            width im = W \<and> height im = H \<and> coord_y_of im = Inr (int i)))"
proof -
  have q: "\<And>p i. (case Image_open fs p of Inl e \<Rightarrow> False
                   | Inr im \<Rightarrow> wf_image im \<and> width im = W \<and> height im = H \<and> coord_y_of im = Inr (int i)) \<longleftrightarrow>
            (\<exists>im. Image_open fs p = Inr im \<and> wf_image im \<and> width im = W \<and> height im = H \<and>
                  coord_y_of im = Inr (int i))"
    by (auto split: sum.splits)
  show ?thesis
    unfolding uniform_grid_def
    by (subst list_all_length) (auto simp add: nth_enumerate_eq list_all_iff q)
qed

text \<open>
  C1. Let the grouping consist of \<open>R\<close> groups (at least one) of \<open>C\<close> paths each (at least
  one), every path a readable tile of width \<open>W\<close> and height \<open>H\<close> whose row coordinate is
  the position of its group. Then both tables hold \<open>H\<close> and \<open>W\<close> throughout, \<open>pad_image\<close>
  returns every tile with its own size and pixels (no padding is added), and \<open>merge\<close>
  returns an image of width \<open>C * W\<close> and height \<open>R * H\<close> whose rows are the rows of the
  tiles, side by side within a group and group below group.
\<close>

theorem merge_uniform_grid:
  assumes R: "length grouped_images = R" "0 < R" and C: "0 < C"
    and U: "\<forall>i<R. length (grouped_images ! i) = C \<and>
              (\<forall>p\<in>set (grouped_images ! i). \<exists>im. Image_open fs p = Inr im \<and> wf_image im \<and>
                  width im = W \<and> height im = H \<and> coord_y_of im = Inr (int i))"
  shows "\<exists>tiles full.
     map_err (map_err (Image_open fs)) grouped_images = Inr tiles \<and>
     dimension_tables fs grouped_images = Inr (replicate R H, replicate R W) \<and>
     (\<forall>t\<in>set (concat tiles).
        pad_image black t (replicate R H) (replicate R W) =
          Inr \<lparr>filename = [], format = [], width = W, height = H, data = data t\<rparr>) \<and>
     merge black fs grouped_images = Inr full \<and>
     width full = C * W \<and> height full = R * H \<and>
     data full = concat (map (\<lambda>ims. map (\<lambda>y. concat (map (\<lambda>t. data t ! y) ims)) [0..<H]) tiles) \<and>
     length (data full) = R * H \<and> (\<forall>r\<in>set (data full). length r = C * W)"
proof -
  let ?g = grouped_images
  let ?pad = "\<lambda>t::'a image. \<lparr>filename = [], format = [], width = W, height = H, data = data t\<rparr>"
  let ?strip = "\<lambda>ims::'a image list. \<lparr>filename = [], format = [], width = C * W, height = H,
                  data = map (\<lambda>y. concat (map (\<lambda>t. data t ! y) ims)) [0..<H]\<rparr>"
  have al: "rows_aligned fs ?g"
    unfolding rows_aligned_nth using U R(1) by blast
  from dimension_tables_aligned[OF al] obtain mh mw where d: "dimension_tables fs ?g = Inr (mh, mw)"
    by blast
  from dimension_tables_Inr[OF d] obtain tiles where
    t: "map_err (map_err (Image_open fs)) ?g = Inr tiles"
    and l: "length mh = R" "length mw = R"
    and hk: "\<And>k. k < R \<Longrightarrow> mh ! k = fold max [height t. t \<leftarrow> concat tiles, row_key R t = Some k] 0"
    and wk: "\<And>k. k < R \<Longrightarrow> mw ! k = fold max (map width (tiles ! k)) 0"
    unfolding R(1) by blast
  from map_err_Inr_nth[OF t] have tl: "length tiles = R"
    and o: "\<And>i. i < R \<Longrightarrow> map_err (Image_open fs) (?g ! i) = Inr (tiles ! i)"
    using R(1) by simp_all
  have T: "wf_image t \<and> width t = W \<and> height t = H \<and> coord_y_of t = Inr (int i)"
    if "i < R" "t \<in> set (tiles ! i)" for i t
  proof -
    from map_err_Inr_set[OF o[OF that(1)] that(2)] obtain p where
      "p \<in> set (?g ! i)" "Image_open fs p = Inr t" by blast
    with U that(1) show ?thesis by fastforce
  qed
  have Tl: "length (tiles ! i) = C" if "i < R" for i
    using map_err_Inr_nth[OF o[OF that]] U that by simp
  have key: "row_key R t = Some i" if "i < R" "t \<in> set (tiles ! i)" for i t
    using T[OF that] that(1) by (simp add: row_key_def)
  have cc: "\<exists>i<R. t \<in> set (tiles ! i)" if "t \<in> set (concat tiles)" for t
  proof -
    from that obtain ims where "ims \<in> set tiles" "t \<in> set ims" by auto
    then obtain i where "i < length tiles" "ims = tiles ! i" by (auto simp: in_set_conv_nth)
    with \<open>t \<in> set ims\<close> tl show ?thesis by auto
  qed
  have mh: "mh = replicate R H"
  proof (rule nth_equalityI)
    show "length mh = length (replicate R H)" using l by simp
  next
    fix k assume "k < length mh"
    then have k: "k < R" using l by simp
    from Tl[OF k] C obtain t where t: "t \<in> set (tiles ! k)" by (cases "tiles ! k") auto
    have "t \<in> set (concat tiles)" using t k tl by auto
    then have ne: "[height t. t \<leftarrow> concat tiles, row_key R t = Some k] \<noteq> []"
      using key[OF k t] by (auto simp: filter_empty_conv)
    have "x = H" if "x \<in> set [height t. t \<leftarrow> concat tiles, row_key R t = Some k]" for x
    proof -
      from that obtain u where "u \<in> set (concat tiles)" "x = height u" by auto
      with cc T show ?thesis by blast
    qed
    from fold_max_const[OF ne this] hk[OF k] k show "mh ! k = replicate R H ! k" by simp
  qed
  have mw: "mw = replicate R W"
  proof (rule nth_equalityI)
    show "length mw = length (replicate R W)" using l by simp
  next
    fix k assume "k < length mw"
    then have k: "k < R" using l by simp
    from Tl[OF k] C have ne: "map width (tiles ! k) \<noteq> []" by (cases "tiles ! k") auto
    have "x = W" if "x \<in> set (map width (tiles ! k))" for x
      using that T[OF k] by auto
    from fold_max_const[OF ne this] wk[OF k] k show "mw ! k = replicate R W ! k" by simp
  qed
  have pad: "pad_image black t (replicate R H) (replicate R W) = Inr (?pad t)"
    if "i < R" "t \<in> set (tiles ! i)" for i t
  proof -
    from T[OF that] have w: "wf_image t" "width t = W" "height t = H" "coord_y_of t = Inr (int i)"
      by simp_all
    from w(1) have r: "length (data t) = height t" "\<And>r. r \<in> set (data t) \<Longrightarrow> length r = width t"
      by (simp_all add: wf_image_def list_all_iff)
    from pad_image_same_size[OF w(4), of "replicate R H" "replicate R W" black] that(1) w(2,3) r
    show ?thesis by simp
  qed
  have strip: "horizontal_part black fs (replicate R H) (replicate R W) (?g ! i) = Inr (?strip (tiles ! i))"
    if "i < R" for i
  proof -
    have p: "map_err (\<lambda>im. pad_image black im (replicate R H) (replicate R W)) (tiles ! i) =
               Inr (map ?pad (tiles ! i))"
      using pad[OF that] by (intro map_err_Inr_map) simp
    have ne: "map np_asarray (map ?pad (tiles ! i)) \<noteq> []"
      using Tl[OF that] C by (cases "tiles ! i") auto
    have "np_hstack (map np_asarray (map ?pad (tiles ! i))) =
           Inr \<lparr>nrows = H, ncols = length (map np_asarray (map ?pad (tiles ! i))) * W,
                cells = map (\<lambda>y. concat (map (\<lambda>a. cells a ! y) (map np_asarray (map ?pad (tiles ! i))))) [0..<H]\<rparr>"
      by (rule np_hstack_uniform[OF ne]) (auto simp: np_asarray_def)
    then have "np_hstack (map np_asarray (map ?pad (tiles ! i))) =
           Inr \<lparr>nrows = H, ncols = C * W,
                cells = map (\<lambda>y. concat (map (\<lambda>t. data t ! y) (tiles ! i))) [0..<H]\<rparr>"
      using Tl[OF that] by (simp add: np_asarray_def comp_def)
    then show ?thesis
      by (simp add: horizontal_part_def o[OF that] p Image_fromarray_def)
  qed
  have strips: "map_err (horizontal_part black fs (replicate R H) (replicate R W)) ?g = Inr (map ?strip tiles)"
    unfolding map_err_Inr_iff list_all2_conv_all_nth using strip tl R(1) by simp
  have ne: "map np_asarray (map ?strip tiles) \<noteq> []" using tl R(2) by (cases tiles) auto
  have "np_vstack (map np_asarray (map ?strip tiles)) =
          Inr \<lparr>nrows = length (map np_asarray (map ?strip tiles)) * H, ncols = C * W,
               cells = concat (map cells (map np_asarray (map ?strip tiles)))\<rparr>"
    by (rule np_vstack_uniform[OF ne]) (auto simp: np_asarray_def)
  then have v: "np_vstack (map np_asarray (map ?strip tiles)) =
          Inr \<lparr>nrows = R * H, ncols = C * W,
               cells = concat (map (\<lambda>ims. map (\<lambda>y. concat (map (\<lambda>t. data t ! y) ims)) [0..<H]) tiles)\<rparr>"
    using tl by (simp add: np_asarray_def comp_def)
  let ?full = "\<lparr>filename = [], format = [], width = C * W, height = R * H,
     data = concat (map (\<lambda>ims. map (\<lambda>y. concat (map (\<lambda>t. data t ! y) ims)) [0..<H]) tiles)\<rparr>"
  have m: "merge black fs ?g = Inr ?full"
    using d strips v unfolding mh mw by (simp add: merge_def Image_fromarray_def)
  have len: "length (data ?full) = R * H"
    using tl by (simp add: length_concat comp_def sum_list_const[where c = H])
  have rowlen: "length r = C * W" if "r \<in> set (data ?full)" for r
  proof -
    from that obtain ims y where iy: "ims \<in> set tiles" "y < H" "r = concat (map (\<lambda>t. data t ! y) ims)"
      by auto
    then obtain i where i: "i < R" "ims = tiles ! i" using tl by (auto simp: in_set_conv_nth)
    have "length (data t ! y) = W" if "t \<in> set ims" for t
    proof -
      from T[OF i(1)] that i(2) have "wf_image t" "width t = W" "height t = H" by simp_all
      with iy(2) show ?thesis by (simp add: wf_image_def list_all_length)
    qed
    then have "sum_list (map (\<lambda>t. length (data t ! y)) ims) = length ims * W"
      by (intro sum_list_const) simp
    then show ?thesis using iy(3) i Tl[OF i(1)] by (simp add: length_concat comp_def)
  qed
  have pads: "\<forall>t\<in>set (concat tiles). pad_image black t (replicate R H) (replicate R W) = Inr (?pad t)"
    using cc pad by blast
  from t d[unfolded mh mw] pads m len rowlen show ?thesis
    by (intro exI[of _ tiles] exI[of _ ?full]) simp
qed


theorem merge_uniform_grid_witness:
  "uniform_grid fs_uniform [[''t/s_0_0.png'', ''t/s_0_1.png''], [''t/s_1_0.png'', ''t/s_1_1.png'']] 2 2 2 2 \<and>
   (\<exists>full. merge (\<lambda>im. 0) fs_uniform [[''t/s_0_0.png'', ''t/s_0_1.png''], [''t/s_1_0.png'', ''t/s_1_1.png'']] = Inr full \<and>
      full = \<lparr>filename = [], format = [], width = 4, height = 4,
               data = [[1, 2, 5, 6], [3, 4, 7, 8], [9, 10, 13, 14], [11, 12, 15, 16]]\<rparr> \<and>
      width full = 2 * 2 \<and> height full = 2 * 2)"
proof -
  let ?g = "[[''t/s_0_0.png'', ''t/s_0_1.png''], [''t/s_1_0.png'', ''t/s_1_1.png'']]"
  have u: "uniform_grid fs_uniform ?g 2 2 2 2" by code_simp
  then have h: "length ?g = 2" "0 < (2::nat)"
    "\<forall>i<2. length (?g ! i) = 2 \<and>
        (\<forall>p\<in>set (?g ! i). \<exists>im. Image_open fs_uniform p = Inr im \<and> wf_image im \<and>
            width im = 2 \<and> height im = 2 \<and> coord_y_of im = Inr (int i))"
    unfolding uniform_grid_nth by blast+
  from merge_uniform_grid[OF h(1,2,2,3), of "\<lambda>im. 0"]
  obtain full where f: "merge (\<lambda>im. 0) fs_uniform ?g = Inr full" "width full = 2 * 2" "height full = 2 * 2"
    by blast
  have "merge (\<lambda>im. 0) fs_uniform ?g =
      Inr \<lparr>filename = [], format = [], width = 4, height = 4,
           data = [[1, 2, 5, 6], [3, 4, 7, 8], [9, 10, 13, 14], [11, 12, 15, 16]]\<rparr>"
    by code_simp
  with f u show ?thesis by simp
qed

section \<open>Grouping: runs of equal row coordinate\<close>

lemma fold_err_snoc:
  "fold_err f (xs @ [x]) s = (case fold_err f xs s of Inl e \<Rightarrow> Inl e | Inr s' \<Rightarrow> f x s')"
  by (induction xs arbitrary: s) (auto split: sum.splits)

lemma set_natsort_insert: "set (natsort_insert x ys) = insert x (set ys)"
  by (induction ys) auto

lemma set_natsorted: "set (natsorted xs) = set xs"
  by (induction xs) (auto simp: natsorted_def set_natsort_insert)

text \<open>
  What holds of the loop state after the paths \<open>seen\<close>: the groups are some \<open>init\<close> followed
  by the current group; with the tracked row last, the rows of the groups start at 0 and
  no two neighbours are equal; every path of a group has the row of its group; only the
  first group can be empty; the groups hold, in order, the paths seen that end in the
  extension.
\<close>

lemma group_step_invariant:
  assumes "group_step ext x (last_y, gi, init @ [cur]) = Inr st'"
    and "gi = length init"
    and "list_all2 (\<lambda>g y. \<forall>t\<in>set g. row_of_path ext t = Inr y) (init @ [cur]) (ys @ [last_y])"
    and "distinct_adj (ys @ [last_y])" "hd (ys @ [last_y]) = 0"
    and "\<forall>g\<in>set (tl (init @ [cur])). g \<noteq> []"
    and "concat (init @ [cur]) = filter (\<lambda>p. str_endswith p ext) seen"
  shows "\<exists>last_y' init' cur' ys'. st' = (last_y', length init', init' @ [cur']) \<and>
     list_all2 (\<lambda>g y. \<forall>t\<in>set g. row_of_path ext t = Inr y) (init' @ [cur']) (ys' @ [last_y']) \<and>
     distinct_adj (ys' @ [last_y']) \<and> hd (ys' @ [last_y']) = 0 \<and>
     (\<forall>g\<in>set (tl (init' @ [cur'])). g \<noteq> []) \<and>
     concat (init' @ [cur']) = filter (\<lambda>p. str_endswith p ext) (seen @ [x])"
proof (cases "str_endswith x ext")
  case False
  with assms(1) have "st' = (last_y, length init, init @ [cur])"
    using assms(2) by (simp add: group_step_def)
  with assms(3-7) False show ?thesis by auto
next
  case True
  with assms(1) obtain y where y: "row_of_path ext x = Inr y"
    by (cases "row_of_path ext x") (simp_all add: group_step_def)
  have l: "length init = length ys"
    using assms(3) by (auto dest: list_all2_lengthD)
  have a: "list_all2 (\<lambda>g y. \<forall>t\<in>set g. row_of_path ext t = Inr y) init ys"
    and c: "\<forall>t\<in>set cur. row_of_path ext t = Inr last_y"
    using assms(3) l by (simp_all add: list_all2_append)
  show ?thesis
  proof (cases "y = last_y")
    case same: True
    have st: "st' = (last_y, length init, init @ [cur @ [x]])"
      using assms(1,2) True y same by (simp add: group_step_def)
    have 1: "list_all2 (\<lambda>g y. \<forall>t\<in>set g. row_of_path ext t = Inr y) (init @ [cur @ [x]]) (ys @ [last_y])"
      using a c y same l by (simp add: list_all2_append)
    have 2: "\<forall>g\<in>set (tl (init @ [cur @ [x]])). g \<noteq> []"
      using assms(6) by (cases init) auto
    have 3: "concat (init @ [cur @ [x]]) = filter (\<lambda>p. str_endswith p ext) (seen @ [x])"
      using assms(7) True by simp
    from st 1 2 3 assms(4,5) show ?thesis by blast
  next
    case new: False
    have st: "st' = (y, length (init @ [cur]), (init @ [cur]) @ [[x]])"
      using assms(1,2) True y new by (simp add: group_step_def)
    have 1: "list_all2 (\<lambda>g y. \<forall>t\<in>set g. row_of_path ext t = Inr y) ((init @ [cur]) @ [[x]]) ((ys @ [last_y]) @ [y])"
      by (rule list_all2_appendI[OF assms(3)]) (simp add: y)
    have 2: "distinct_adj ((ys @ [last_y]) @ [y])"
      using assms(4) new by (simp add: distinct_adj_append_iff del: append_assoc)
    have 3: "hd ((ys @ [last_y]) @ [y]) = 0"
      using assms(5) by (simp add: hd_append del: append_assoc)
    have 4: "\<forall>g\<in>set (tl ((init @ [cur]) @ [[x]])). g \<noteq> []"
      using assms(6) by (simp del: append_assoc)
    have 5: "concat ((init @ [cur]) @ [[x]]) = filter (\<lambda>p. str_endswith p ext) (seen @ [x])"
      using assms(7) True by simp
    from st 1 2 3 4 5 show ?thesis by blast
  qed
qed


lemma group_loop_invariant:
  assumes "fold_err (group_step ext) seen (0, 0, [[]]) = Inr st"
  shows "\<exists>last_y init cur ys. st = (last_y, length init, init @ [cur]) \<and>
     list_all2 (\<lambda>g y. \<forall>t\<in>set g. row_of_path ext t = Inr y) (init @ [cur]) (ys @ [last_y]) \<and>
     distinct_adj (ys @ [last_y]) \<and> hd (ys @ [last_y]) = 0 \<and>
     (\<forall>g\<in>set (tl (init @ [cur])). g \<noteq> []) \<and>
     concat (init @ [cur]) = filter (\<lambda>p. str_endswith p ext) seen"
  using assms
proof (induction seen arbitrary: st rule: rev_induct)
  case Nil
  then have "st = (0, length ([] :: string list list), [] @ [[]])" by simp
  moreover have "list_all2 (\<lambda>g y. \<forall>t\<in>set g. row_of_path ext t = Inr y) ([] @ [[]]) ([] @ [0])"
    by simp
  ultimately show ?case
    by (intro exI[of _ 0] exI[of _ "[]"]) simp
next
  case (snoc x seen)
  from snoc.prems obtain st0 where
    f: "fold_err (group_step ext) seen (0, 0, [[]]) = Inr st0" and s: "group_step ext x st0 = Inr st"
    unfolding fold_err_snoc
    by (cases "fold_err (group_step ext) seen (0, 0, [[]])") simp_all
  from snoc.IH[OF f] obtain last_y init cur ys where
    i: "st0 = (last_y, length init, init @ [cur])"
      "list_all2 (\<lambda>g y. \<forall>t\<in>set g. row_of_path ext t = Inr y) (init @ [cur]) (ys @ [last_y])"
      "distinct_adj (ys @ [last_y])" "hd (ys @ [last_y]) = 0"
      "\<forall>g\<in>set (tl (init @ [cur])). g \<noteq> []"
      "concat (init @ [cur]) = filter (\<lambda>p. str_endswith p ext) seen"
    by blast
  from group_step_invariant[OF s[unfolded i(1)] refl i(2-6)] show ?case .
qed

lemma group_images_Inr:
  assumes "group_images images ext = Inr gs"
  shows "\<exists>rows. list_all2 (\<lambda>g y. \<forall>t\<in>set g. row_of_path ext t = Inr y) gs rows \<and>
     rows \<noteq> [] \<and> hd rows = 0 \<and> distinct_adj rows \<and> (\<forall>g\<in>set (tl gs). g \<noteq> []) \<and>
     concat gs = filter (\<lambda>p. str_endswith p ext) (natsorted images)"
proof -
  from assms obtain st where f: "fold_err (group_step ext) (natsorted images) (0, 0, [[]]) = Inr st"
    and g: "gs = snd (snd st)"
    unfolding group_images_def Let_def
    by (cases "fold_err (group_step ext) (natsorted images) (0, 0, [[]])") (auto split: prod.splits)
  from group_loop_invariant[OF f] obtain last_y init cur ys where
    i: "st = (last_y, length init, init @ [cur])"
      "list_all2 (\<lambda>g y. \<forall>t\<in>set g. row_of_path ext t = Inr y) (init @ [cur]) (ys @ [last_y])"
      "distinct_adj (ys @ [last_y])" "hd (ys @ [last_y]) = 0"
      "\<forall>g\<in>set (tl (init @ [cur])). g \<noteq> []"
      "concat (init @ [cur]) = filter (\<lambda>p. str_endswith p ext) (natsorted images)"
    by blast
  have "gs = init @ [cur]" using g i(1) by simp
  with i(2-6) show ?thesis
    by (intro exI[of _ "ys @ [last_y]"]) simp
qed


text \<open>
  C6. \<open>group_images\<close> runs its loop over the naturally sorted paths from the tracked row
  0, group index 0 and one empty group; a path with the extension whose row equals the
  tracked row is appended to the current group, any other row starts a new group and
  becomes the tracked row. Hence the groups, concatenated, are the sorted paths with the
  extension; there is one row per group, the first row is 0, neighbouring rows differ,
  every path of a group has the row of its group, and only the first group can be empty.
  The six tiles \<open>im_0_0.png\<close> ... \<open>im_1_2.png\<close>, given in any order such as the one below,
  yield the three tiles of row 0 followed by the three tiles of row 1.
\<close>

theorem group_images_runs:
  assumes "group_images images ext = Inr gs"
  shows "group_images images ext =
       (case fold_err (group_step ext) (natsorted images) (0, 0, [[]]) of
          Inl e \<Rightarrow> Inl e | Inr (last_y, group_index, grouped_images) \<Rightarrow> Inr grouped_images) \<and>
     (\<forall>x y last_y group_index grouped_images.
        str_endswith x ext \<and> row_of_path ext x = Inr y \<and> group_index < length grouped_images \<longrightarrow>
        group_step ext x (last_y, group_index, grouped_images) =
          (if y = last_y
           then Inr (last_y, group_index,
                     grouped_images[group_index := grouped_images ! group_index @ [x]])
           else Inr (y, group_index + 1, grouped_images @ [[x]]))) \<and>
     (\<exists>rows. length rows = length gs \<and> gs \<noteq> [] \<and> hd rows = 0 \<and> distinct_adj rows \<and>
        (\<forall>j<length gs. \<forall>t\<in>set (gs ! j). row_of_path ext t = Inr (rows ! j)) \<and>
        (\<forall>g\<in>set (tl gs). g \<noteq> []) \<and>
        concat gs = filter (\<lambda>p. str_endswith p ext) (natsorted images)) \<and>
     group_images [''im_1_2.png'', ''im_1_1.png'', ''im_0_2.png'', ''im_0_0.png'', ''im_1_0.png'',
                   ''im_0_1.png''] ''png'' =
       Inr [[''im_0_0.png'', ''im_0_1.png'', ''im_0_2.png''],
            [''im_1_0.png'', ''im_1_1.png'', ''im_1_2.png'']]"
proof (intro conjI)
  show "group_images images ext =
       (case fold_err (group_step ext) (natsorted images) (0, 0, [[]]) of
          Inl e \<Rightarrow> Inl e | Inr (last_y, group_index, grouped_images) \<Rightarrow> Inr grouped_images)"
    by (simp add: group_images_def)
next
  show "\<forall>x y last_y group_index grouped_images.
        str_endswith x ext \<and> row_of_path ext x = Inr y \<and> group_index < length grouped_images \<longrightarrow>
        group_step ext x (last_y, group_index, grouped_images) =
          (if y = last_y
           then Inr (last_y, group_index,
                     grouped_images[group_index := grouped_images ! group_index @ [x]])
           else Inr (y, group_index + 1, grouped_images @ [[x]]))"
    by (simp add: group_step_def)
next
  from group_images_Inr[OF assms] obtain rows where
    r: "list_all2 (\<lambda>g y. \<forall>t\<in>set g. row_of_path ext t = Inr y) gs rows"
      "rows \<noteq> []" "hd rows = 0" "distinct_adj rows" "\<forall>g\<in>set (tl gs). g \<noteq> []"
      "concat gs = filter (\<lambda>p. str_endswith p ext) (natsorted images)"
    by blast
  from r(1) have l: "length rows = length gs"
    and n: "\<forall>j<length gs. \<forall>t\<in>set (gs ! j). row_of_path ext t = Inr (rows ! j)"
    by (simp_all add: list_all2_conv_all_nth)
  from l r(2) have "gs \<noteq> []" by auto
  with l n r(3-6)
  show "\<exists>rows. length rows = length gs \<and> gs \<noteq> [] \<and> hd rows = 0 \<and> distinct_adj rows \<and>
        (\<forall>j<length gs. \<forall>t\<in>set (gs ! j). row_of_path ext t = Inr (rows ! j)) \<and>
        (\<forall>g\<in>set (tl gs). g \<noteq> []) \<and>
        concat gs = filter (\<lambda>p. str_endswith p ext) (natsorted images)"
    by blast
next
  show "group_images [''im_1_2.png'', ''im_1_1.png'', ''im_0_2.png'', ''im_0_0.png'', ''im_1_0.png'',
                   ''im_0_1.png''] ''png'' =
       Inr [[''im_0_0.png'', ''im_0_1.png'', ''im_0_2.png''],
            [''im_1_0.png'', ''im_1_1.png'', ''im_1_2.png'']]"
    by code_simp
qed

theorem group_images_runs_witness:
  "group_images [''s/tile_2_0.png'', ''s/tile_0_10.png'', ''s/notes.txt'', ''s/tile_0_9.png''] ''png'' =
     Inr [[''s/tile_0_9.png'', ''s/tile_0_10.png''], [''s/tile_2_0.png'']] \<and>
   (\<exists>rows. length rows = 2 \<and> hd rows = 0 \<and> distinct_adj rows \<and>
      row_of_path ''png'' ''s/tile_0_10.png'' = Inr (rows ! 0) \<and>
      row_of_path ''png'' ''s/tile_2_0.png'' = Inr (rows ! 1))"
proof -
  let ?i = "[''s/tile_2_0.png'', ''s/tile_0_10.png'', ''s/notes.txt'', ''s/tile_0_9.png'']"
  let ?g = "[[''s/tile_0_9.png'', ''s/tile_0_10.png''], [''s/tile_2_0.png'']]"
  have g: "group_images ?i ''png'' = Inr ?g" by code_simp
  from group_images_runs[OF g, THEN conjunct2, THEN conjunct2, THEN conjunct1] obtain rows where
    r: "length rows = length ?g" "hd rows = 0" "distinct_adj rows"
       "\<forall>j<length ?g. \<forall>t\<in>set (?g ! j). row_of_path ''png'' t = Inr (rows ! j)"
    by blast
  have l: "length ?g = 2" "0 < length ?g" "1 < length ?g" by simp_all
  have m: "''s/tile_0_10.png'' \<in> set (?g ! 0)" "''s/tile_2_0.png'' \<in> set (?g ! 1)" by simp_all
  have "row_of_path ''png'' ''s/tile_0_10.png'' = Inr (rows ! 0)"
    by (rule r(4)[rule_format, OF l(2) m(1)])
  moreover have "row_of_path ''png'' ''s/tile_2_0.png'' = Inr (rows ! 1)"
    by (rule r(4)[rule_format, OF l(3) m(2)])
  ultimately show ?thesis using g r(1-3) unfolding l(1) by blast
qed

section \<open>Table lookups by row coordinate\<close>

lemma getitem_cases: "getitem xs i = Inl IndexError \<or> (\<exists>v. getitem xs i = Inr v)"
  by (simp add: getitem_def split: option.splits)

lemma pad_image_lookup_fails:
  assumes "coord_y_of im = Inr c"
    and "getitem mh c = Inl IndexError \<or> getitem mw c = Inl IndexError"
  shows "pad_image black im mh mw = Inl IndexError"
  using assms getitem_cases[of mh c]
  by (auto simp: pad_image_def)

lemma group_images_first_group_empty:
  assumes "group_images images ext = Inr gs"
    and "\<forall>p\<in>set images. str_endswith p ext \<longrightarrow> row_of_path ext p \<noteq> Inr 0"
  shows "\<exists>rest. gs = [] # rest"
proof -
  from group_images_Inr[OF assms(1)] obtain rows where
    r: "list_all2 (\<lambda>g y. \<forall>t\<in>set g. row_of_path ext t = Inr y) gs rows"
      "rows \<noteq> []" "hd rows = 0"
      "concat gs = filter (\<lambda>p. str_endswith p ext) (natsorted images)"
    by blast
  from r(1,2) obtain g rest y ys where g: "gs = g # rest" "rows = y # ys"
    "\<forall>t\<in>set g. row_of_path ext t = Inr y"
    by (cases gs; cases rows) auto
  have "g = []"
  proof (rule ccontr)
    assume "g \<noteq> []"
    then obtain t where t: "t \<in> set g" by (cases g) auto
    then have "t \<in> set (concat gs)" using g(1) by simp
    then have "t \<in> set images" "str_endswith t ext"
      unfolding r(4) by (simp_all add: set_natsorted)
    with assms(2) have "row_of_path ext t \<noteq> Inr 0" by blast
    moreover have "row_of_path ext t = Inr 0" using g(2,3) r(3) t by simp
    ultimately show False by contradiction
  qed
  with g(1) show ?thesis by simp
qed

text \<open>
  C10, in the form that holds. \<open>pad_image\<close> reads both targets at the tile's row
  coordinate: with both entries present it returns a tile of exactly these two sizes, and with one of
  them out of range it raises IndexError. When every path of the grouping is a readable
  tile whose row coordinate is the position of its group, the first loop of \<open>merge\<close>
  completes, \<open>pad_image\<close> succeeds on every tile, and \<open>merge\<close> cannot raise IndexError
  (it returns, or raises the ValueError of a concatenation). When no path with the
  extension has row coordinate 0, \<open>group_images\<close> leaves the first group empty and
  \<open>merge\<close> raises on that grouping, so no image is produced: it raises what the first
  loop raises, if that raises, and otherwise the ValueError of concatenating the empty
  first group.
\<close>

theorem row_coordinate_lookups:
  "(\<forall>c. coord_y_of im = Inr c \<longrightarrow>
      (\<forall>target_height target_width.
          getitem max_heights c = Inr target_height \<and> getitem max_widths c = Inr target_width \<longrightarrow>
          (\<exists>out. pad_image black im max_heights max_widths = Inr out \<and>
                 height out = target_height \<and> width out = target_width)) \<and>
      (getitem max_heights c = Inl IndexError \<or> getitem max_widths c = Inl IndexError \<longrightarrow>
          pad_image black im max_heights max_widths = Inl IndexError)) \<and>
   (rows_aligned fs grouped_images \<longrightarrow>
      (\<exists>mh mw. dimension_tables fs grouped_images = Inr (mh, mw) \<and>
         (\<forall>i<length grouped_images. \<forall>p\<in>set (grouped_images ! i).
             \<exists>t out. Image_open fs p = Inr t \<and> pad_image black t mh mw = Inr out)) \<and>
      (\<forall>e. merge black fs grouped_images = Inl e \<longrightarrow>
           e = ValueError NeedOneArray \<or> e = ValueError DimensionMismatch)) \<and>
   (\<forall>gs. group_images images ext = Inr gs \<and>
         (\<forall>p\<in>set images. str_endswith p ext \<longrightarrow> row_of_path ext p \<noteq> Inr 0) \<longrightarrow>
         hd gs = [] \<and>
         merge black fs gs =
           (case dimension_tables fs gs of
              Inl e \<Rightarrow> Inl e
            | Inr tables \<Rightarrow> Inl (ValueError NeedOneArray)))"
proof (intro conjI allI impI)
  fix c th tw
  assume "coord_y_of im = Inr c" "getitem max_heights c = Inr th \<and> getitem max_widths c = Inr tw"
  then show "\<exists>out. pad_image black im max_heights max_widths = Inr out \<and> height out = th \<and> width out = tw"
    by (simp add: pad_image_Inr)
next
  fix c
  assume "coord_y_of im = Inr c"
    "getitem max_heights c = Inl IndexError \<or> getitem max_widths c = Inl IndexError"
  then show "pad_image black im max_heights max_widths = Inl IndexError"
    by (rule pad_image_lookup_fails)
next
  assume al: "rows_aligned fs grouped_images"
  from dimension_tables_aligned[OF al] obtain mh mw where
    d: "dimension_tables fs grouped_images = Inr (mh, mw)"
       "length mh = length grouped_images" "length mw = length grouped_images"
    by blast
  have "\<exists>t out. Image_open fs p = Inr t \<and> pad_image black t mh mw = Inr out"
    if "i < length grouped_images" "p \<in> set (grouped_images ! i)" for i p
  proof -
    from al that obtain t where t: "Image_open fs p = Inr t" "coord_y_of t = Inr (int i)"
      unfolding rows_aligned_nth by blast
    from pad_image_aligned[OF t(2), of mh mw black] that(1) d(2,3) t(1) show ?thesis by auto
  qed
  with d(1)
  show "\<exists>mh mw. dimension_tables fs grouped_images = Inr (mh, mw) \<and>
         (\<forall>i<length grouped_images. \<forall>p\<in>set (grouped_images ! i).
             \<exists>t out. Image_open fs p = Inr t \<and> pad_image black t mh mw = Inr out)"
    by blast
next
  fix e
  assume "rows_aligned fs grouped_images" "merge black fs grouped_images = Inl e"
  then show "e = ValueError NeedOneArray \<or> e = ValueError DimensionMismatch"
    by (rule merge_aligned_errors)
next
  fix gs
  assume a: "group_images images ext = Inr gs \<and>
         (\<forall>p\<in>set images. str_endswith p ext \<longrightarrow> row_of_path ext p \<noteq> Inr 0)"
  from group_images_first_group_empty[of images ext gs] a obtain rest where g: "gs = [] # rest"
    by blast
  then show "hd gs = []" by simp
  from g merge_first_group_empty[of black fs rest]
  show "merge black fs gs =
           (case dimension_tables fs gs of
              Inl e \<Rightarrow> Inl e
            | Inr tables \<Rightarrow> Inl (ValueError NeedOneArray))"
    by simp
qed


theorem row_coordinate_lookups_witness:
  "coord_y_of strip10 = Inr 0 \<and> getitem [2::nat] 0 = Inr 2 \<and> getitem [13::nat] 0 = Inr 13 \<and>
   (\<exists>out. pad_image (\<lambda>im. 0) strip10 [2] [13] = Inr out \<and> height out = 2 \<and> width out = 13) \<and>
   rows_aligned fs_grid [[''d/a_0_0.png'', ''d/a_0_1.png''], [''d/a_1_0.png'', ''d/a_1_1.png'']] \<and>
   (\<exists>mh mw. dimension_tables fs_grid
       [[''d/a_0_0.png'', ''d/a_0_1.png''], [''d/a_1_0.png'', ''d/a_1_1.png'']] = Inr (mh, mw)) \<and>
   merge (\<lambda>im. 0) fs_grid [[''d/a_0_0.png'', ''d/a_0_1.png''], [''d/a_1_0.png'', ''d/a_1_1.png'']] \<noteq> Inl IndexError \<and>
   group_images [''im_1_0.png''] ''png'' = Inr [[], [''im_1_0.png'']] \<and>
   row_of_path ''png'' ''im_1_0.png'' = Inr 1 \<and>
   merge (\<lambda>im. 0) fs_row1 [[], [''im_1_0.png'']] = Inl (ValueError NeedOneArray)"
proof -
  let ?g = "[[''d/a_0_0.png'', ''d/a_0_1.png''], [''d/a_1_0.png'', ''d/a_1_1.png'']]"
  have h1: "coord_y_of strip10 = Inr 0" by code_simp
  have h2: "getitem [2::nat] 0 = Inr 2" "getitem [13::nat] 0 = Inr 13" by code_simp+
  have al: "rows_aligned fs_grid ?g" by code_simp
  have gi: "group_images [''im_1_0.png''] ''png'' = Inr [[], [''im_1_0.png'']]" by code_simp
  have rp: "row_of_path ''png'' ''im_1_0.png'' = Inr 1" by code_simp
  have nz: "\<forall>p\<in>set [''im_1_0.png'']. str_endswith p ''png'' \<longrightarrow> row_of_path ''png'' p \<noteq> Inr 0"
    using rp by simp
  note a = row_coordinate_lookups[of strip10 "[2]" "[13]" "\<lambda>im. 0" fs_grid ?g "[]" "[]"]
  note b = row_coordinate_lookups[of strip10 "[2]" "[13]" "\<lambda>im. 0" fs_row1 "[]" "[''im_1_0.png'']" "''png''"]
  from a[THEN conjunct1, rule_format, OF h1, THEN conjunct1, rule_format, of 2 13] h2
  have 1: "\<exists>out. pad_image (\<lambda>im. 0) strip10 [2] [13] = Inr out \<and> height out = 2 \<and> width out = 13"
    by simp
  from a[THEN conjunct2, THEN conjunct1, rule_format, OF al]
  have 2: "\<exists>mh mw. dimension_tables fs_grid ?g = Inr (mh, mw)"
    and 3: "\<forall>e. merge (\<lambda>im. 0) fs_grid ?g = Inl e \<longrightarrow> e = ValueError NeedOneArray \<or> e = ValueError DimensionMismatch"
    by blast+
  from 3 have 4: "merge (\<lambda>im. 0) fs_grid ?g \<noteq> Inl IndexError" by auto
  have dt: "dimension_tables fs_row1 [[], [''im_1_0.png'']] = Inr ([0, 1], [0, 2])" by code_simp
  from b[THEN conjunct2, THEN conjunct2, rule_format, of "[[], [''im_1_0.png'']]"] gi nz
  have "merge (\<lambda>im. 0) fs_row1 [[], [''im_1_0.png'']] =
           (case dimension_tables fs_row1 [[], [''im_1_0.png'']] of
              Inl e \<Rightarrow> Inl e
            | Inr tables \<Rightarrow> Inl (ValueError NeedOneArray))"
    by blast
  then have 5: "merge (\<lambda>im. 0) fs_row1 [[], [''im_1_0.png'']] = Inl (ValueError NeedOneArray)"
    unfolding dt by simp
  from h1 h2 1 al 2 4 gi rp 5 show ?thesis by blast
qed

theorem row_coordinate_lookups_counterexample:
  "group_images [''im_1_0.png''] ''png'' = Inr [[], [''im_1_0.png'']] \<and>
   row_of_path ''png'' ''im_1_0.png'' = Inr 1 \<and>
   dimension_tables fs_row1 [[], [''im_1_0.png'']] = Inr ([0, 1], [0, 2]) \<and>
   Image_open fs_row1 ''im_1_0.png'' = Inr ((solid 2 1 5)\<lparr>filename := ''im_1_0.png''\<rparr>) \<and>
   pad_image (\<lambda>im. 0) ((solid 2 1 5)\<lparr>filename := ''im_1_0.png''\<rparr>) [0, 1] [0, 2] =
     Inr \<lparr>filename = [], format = [], width = 2, height = 1, data = [[5, 5]]\<rparr> \<and>
   merge (\<lambda>im. 0) fs_row1 [[], [''im_1_0.png'']] = Inl (ValueError NeedOneArray)"
proof -
  have "group_images [''im_1_0.png''] ''png'' = Inr [[], [''im_1_0.png'']]" by code_simp
  moreover have "row_of_path ''png'' ''im_1_0.png'' = Inr 1" by code_simp
  moreover have "dimension_tables fs_row1 [[], [''im_1_0.png'']] = Inr ([0, 1], [0, 2])" by code_simp
  moreover have "Image_open fs_row1 ''im_1_0.png'' = Inr ((solid 2 1 5)\<lparr>filename := ''im_1_0.png''\<rparr>)"
    by code_simp
  moreover have "pad_image (\<lambda>im. 0) ((solid 2 1 5)\<lparr>filename := ''im_1_0.png''\<rparr>) [0, 1] [0, 2] =
     Inr \<lparr>filename = [], format = [], width = 2, height = 1, data = [[5, 5]]\<rparr>"
    by code_simp
  moreover have "merge (\<lambda>im. 0) fs_row1 [[], [''im_1_0.png'']] = Inl (ValueError NeedOneArray)" by code_simp
  ultimately show ?thesis by blast
qed

section \<open>The size of a padded tile\<close>

lemma pad_image_Inr_D:
  assumes "pad_image black t mh mw = Inr out"
  shows "\<exists>c. coord_y_of t = Inr c \<and> getitem mh c = Inr (height out) \<and> getitem mw c = Inr (width out)"
proof -
  from assms obtain c where c: "coord_y_of t = Inr c"
    by (cases "coord_y_of t") (simp_all add: pad_image_def)
  from assms c obtain th where th: "getitem mh c = Inr th"
    by (cases "getitem mh c") (simp_all add: pad_image_def)
  from assms c th obtain tw where tw: "getitem mw c = Inr tw"
    by (cases "getitem mw c") (simp_all add: pad_image_def)
  from assms pad_image_Inr[OF c th tw, of black] have "height out = th" "width out = tw" by auto
  with c th tw show ?thesis by simp
qed

lemma aligned_tiles:
  assumes "rows_aligned fs g" "map_err (map_err (Image_open fs)) g = Inr tiles"
    and "j < length g" "u \<in> set (tiles ! j)"
  shows "coord_y_of u = Inr (int j)"
proof -
  from map_err_Inr_nth[OF assms(2)] assms(3)
  have "map_err (Image_open fs) (g ! j) = Inr (tiles ! j)" by simp
  from map_err_Inr_set[OF this assms(4)] obtain p where
    p: "p \<in> set (g ! j)" "Image_open fs p = Inr u" by blast
  from assms(1,3) p(1) have "\<exists>im. Image_open fs p = Inr im \<and> coord_y_of im = Inr (int j)"
    unfolding rows_aligned_nth by simp
  with p(2) show ?thesis by simp
qed

lemma aligned_row_tiles:
  assumes "rows_aligned fs g" "map_err (map_err (Image_open fs)) g = Inr tiles"
    and "i < length g"
  shows "{u \<in> set (concat tiles). coord_y_of u = Inr (int i)} = set (tiles ! i)"
proof -
  from map_err_Inr_nth[OF assms(2)] have l: "length tiles = length g" by simp
  show ?thesis
  proof (intro set_eqI iffI)
    fix u assume "u \<in> {u \<in> set (concat tiles). coord_y_of u = Inr (int i)}"
    then have u: "u \<in> set (concat tiles)" "coord_y_of u = Inr (int i)" by simp_all
    from u(1) obtain j where j: "j < length tiles" "u \<in> set (tiles ! j)"
      unfolding set_concat by (metis UN_E in_set_conv_nth)
    from aligned_tiles[OF assms(1,2) _ j(2)] j(1) l have "coord_y_of u = Inr (int j)" by simp
    with u(2) have "j = i" by simp
    with j(2) show "u \<in> set (tiles ! i)" by simp
  next
    fix u assume u: "u \<in> set (tiles ! i)"
    from aligned_tiles[OF assms(1,2,3) u] have "coord_y_of u = Inr (int i)" .
    moreover from u assms(3) l have "u \<in> set (concat tiles)" by auto
    ultimately show "u \<in> {u \<in> set (concat tiles). coord_y_of u = Inr (int i)}" by simp
  qed
qed

text \<open>
  C5. In a grouping whose tiles are readable and carry the position of their group as
  row coordinate, \<open>pad_image\<close> pads every tile \<open>t\<close> of every group \<open>i\<close> with the tables of
  \<open>merge\<close>: both targets are at least the tile's own size, the output tile's height is
  the target height of its row, which is the largest height among the tiles with the row
  coordinate of \<open>t\<close> (the tiles of group \<open>i\<close>), and its width is the target width of its
  group, which is the largest width among the tiles of group \<open>i\<close>.
\<close>

theorem pad_image_target_size:
  assumes "rows_aligned fs grouped_images"
    and "dimension_tables fs grouped_images = Inr (max_heights, max_widths)"
    and "map_err (map_err (Image_open fs)) grouped_images = Inr tiles"
    and "i < length grouped_images" "t \<in> set (tiles ! i)"
  shows "\<exists>out. pad_image black t max_heights max_widths = Inr out \<and>
     height t \<le> max_heights ! i \<and> width t \<le> max_widths ! i \<and>
     height out = max_heights ! i \<and> width out = max_widths ! i \<and>
     max_heights ! i = Max (set [height u. u \<leftarrow> concat tiles, coord_y_of u = coord_y_of t]) \<and>
     max_heights ! i = Max (set (map height (tiles ! i))) \<and>
     max_widths ! i = Max (set (map width (tiles ! i)))"
proof -
  let ?n = "length grouped_images"
  from dimension_tables_Inr[OF assms(2)] assms(3) have
    l: "length max_heights = ?n" "length max_widths = ?n"
    and hk: "max_heights ! i =
               Max (set (0 # [height u. u \<leftarrow> concat tiles, row_key ?n u = Some i]))"
    and wk: "max_widths ! i = Max (set (0 # map width (tiles ! i)))"
    using assms(4) unfolding fold_max_Max by auto
  have c: "coord_y_of t = Inr (int i)"
    by (rule aligned_tiles[OF assms(1,3,4,5)])
  have lt: "length tiles = ?n" using map_err_Inr_nth[OF assms(3)] by simp
  have key: "row_key ?n u = Some i \<longleftrightarrow> coord_y_of u = Inr (int i)" if "u \<in> set (concat tiles)" for u
  proof -
    from that obtain j where j: "j < length tiles" "u \<in> set (tiles ! j)"
      unfolding set_concat by (metis UN_E in_set_conv_nth)
    from aligned_tiles[OF assms(1,3) _ j(2)] j(1) lt have "coord_y_of u = Inr (int j)" by simp
    with j(1) lt show ?thesis by (simp add: row_key_def)
  qed
  have "set [height u. u \<leftarrow> concat tiles, row_key ?n u = Some i] =
        height ` {u \<in> set (concat tiles). coord_y_of u = Inr (int i)}"
    using key by auto
  also have "\<dots> = height ` set (tiles ! i)"
    unfolding aligned_row_tiles[OF assms(1,3,4)] ..
  finally have s: "set [height u. u \<leftarrow> concat tiles, row_key ?n u = Some i] = height ` set (tiles ! i)" .
  have "set [height u. u \<leftarrow> concat tiles, coord_y_of u = coord_y_of t] =
        height ` {u \<in> set (concat tiles). coord_y_of u = Inr (int i)}"
    unfolding c by auto
  also have "\<dots> = height ` set (tiles ! i)"
    unfolding aligned_row_tiles[OF assms(1,3,4)] ..
  finally have s': "set [height u. u \<leftarrow> concat tiles, coord_y_of u = coord_y_of t] =
                     height ` set (tiles ! i)" .
  have ne: "set (tiles ! i) \<noteq> {}" using assms(5) by auto
  have h1: "max_heights ! i = Max (height ` set (tiles ! i))"
  proof -
    have "max_heights ! i =
            Max (insert 0 (set [height u. u \<leftarrow> concat tiles, row_key ?n u = Some i]))"
      using hk by (simp only: list.set)
    also have "\<dots> = Max (insert 0 (height ` set (tiles ! i)))" by (simp only: s)
    also have "\<dots> = Max (height ` set (tiles ! i))" using ne by simp
    finally show ?thesis .
  qed
  have w1: "max_widths ! i = Max (width ` set (tiles ! i))"
    unfolding wk using ne by simp
  have ht: "height t \<le> max_heights ! i"
    unfolding h1 using assms(5) by (intro Max_ge) simp_all
  have wt: "width t \<le> max_widths ! i"
    unfolding w1 using assms(5) by (intro Max_ge) simp_all
  from pad_image_aligned[OF c, of max_heights max_widths black] assms(4) l
  obtain out where o: "pad_image black t max_heights max_widths = Inr out"
    "height out = max_heights ! i" "width out = max_widths ! i"
    by auto
  have h2: "max_heights ! i = Max (set [height u. u \<leftarrow> concat tiles, coord_y_of u = coord_y_of t])"
    unfolding s' by (rule h1)
  have h3: "max_heights ! i = Max (set (map height (tiles ! i)))" using h1 by simp
  have w3: "max_widths ! i = Max (set (map width (tiles ! i)))" using w1 by simp
  from o ht wt h2 h3 w3 show ?thesis by blast
qed

theorem pad_image_target_size_witness:
  "rows_aligned fs_grid [[''d/a_0_0.png'', ''d/a_0_1.png''], [''d/a_1_0.png'', ''d/a_1_1.png'']] \<and>
   dimension_tables fs_grid [[''d/a_0_0.png'', ''d/a_0_1.png''], [''d/a_1_0.png'', ''d/a_1_1.png'']] =
     Inr ([2, 1], [3, 3]) \<and>
   pad_image (\<lambda>im. 0) ((solid 2 1 1)\<lparr>filename := ''d/a_0_0.png''\<rparr>) [2, 1] [3, 3] =
     Inr \<lparr>filename = [], format = [], width = 3, height = 2, data = [[1, 1, 0], [0, 0, 0]]\<rparr> \<and>
   (\<exists>out. pad_image (\<lambda>im. 0) ((solid 2 1 1)\<lparr>filename := ''d/a_0_0.png''\<rparr>) [2, 1] [3, 3] = Inr out \<and>
          height out = [2, 1] ! 0 \<and> width out = [3, 3] ! 0)"
proof -
  let ?g = "[[''d/a_0_0.png'', ''d/a_0_1.png''], [''d/a_1_0.png'', ''d/a_1_1.png'']]"
  let ?t = "(solid 2 1 1)\<lparr>filename := ''d/a_0_0.png''\<rparr>"
  let ?tiles = "[[?t, (solid 3 2 2)\<lparr>filename := ''d/a_0_1.png''\<rparr>],
                 [(solid 2 1 3)\<lparr>filename := ''d/a_1_0.png''\<rparr>, (solid 3 1 4)\<lparr>filename := ''d/a_1_1.png''\<rparr>]]"
  let ?out = "\<lparr>filename = [], format = [], width = 3, height = 2, data = [[1, 1, 0], [0, 0, 0::nat]]\<rparr>"
  have a: "rows_aligned fs_grid ?g" by code_simp
  have d: "dimension_tables fs_grid ?g = Inr ([2, 1], [3, 3])" by code_simp
  have o: "map_err (map_err (Image_open fs_grid)) ?g = Inr ?tiles" by code_simp
  have p: "pad_image (\<lambda>im. 0) ?t [2, 1] [3, 3] = Inr ?out" by code_simp
  have i: "0 < length ?g" "?t \<in> set (?tiles ! 0)" by simp_all
  from pad_image_target_size[OF a d o i, of "\<lambda>im. 0"] obtain out where
    "pad_image (\<lambda>im. 0) ?t [2, 1] [3, 3] = Inr out" "height out = [2, 1] ! 0" "width out = [3, 3] ! 0"
    by blast
  with a d p show ?thesis by blast
qed

lemma scan_tiles_keys:
  assumes "fold_err (update_tables i) ims (mh, mw) = Inr (mh', mw')" "t \<in> set ims"
  shows "\<exists>k. row_key (length mh) t = Some k"
  using assms
proof (induction ims arbitrary: mh mw)
  case Nil
  then show ?case by simp
next
  case (Cons u ims)
  from Cons.prems(1) obtain mh1 mw1 where
    u: "update_tables i u (mh, mw) = Inr (mh1, mw1)"
    and r: "fold_err (update_tables i) ims (mh1, mw1) = Inr (mh', mw')"
    by (auto split: sum.splits)
  from update_tables_Inr[OF u] obtain k where
    k: "row_key (length mh) u = Some k" "mh1 = mh[k := max (mh ! k) (height u)]"
    by blast
  have l: "length mh1 = length mh" using k(2) by simp
  show ?case
  proof (cases "t = u")
    case True
    with k(1) show ?thesis by simp
  next
    case False
    with Cons.prems(2) have "t \<in> set ims" by simp
    from Cons.IH[OF r this] l show ?thesis by simp
  qed
qed

lemma scan_groups_keys:
  assumes "fold_err (scan_group fs) (enumerate i0 gs) (mh, mw) = Inr (mh', mw')"
    and "map_err (map_err (Image_open fs)) gs = Inr tiles" "t \<in> set (concat tiles)"
  shows "\<exists>k. row_key (length mh) t = Some k"
  using assms
proof (induction gs arbitrary: i0 mh mw tiles)
  case Nil
  then show ?case by simp
next
  case (Cons g gs)
  from Cons.prems(1) obtain ims mh1 mw1 where
    o: "map_err (Image_open fs) g = Inr ims"
    and u: "fold_err (update_tables i0) ims (mh, mw) = Inr (mh1, mw1)"
    and r: "fold_err (scan_group fs) (enumerate (Suc i0) gs) (mh1, mw1) = Inr (mh', mw')"
    by (auto simp: scan_group_pair split: sum.splits)
  from Cons.prems(2) o obtain rest where
    t: "tiles = ims # rest" "map_err (map_err (Image_open fs)) gs = Inr rest"
    by (auto split: sum.splits)
  from scan_tiles[OF u] have l: "length mh1 = length mh" by simp
  from Cons.prems(3) t(1) consider "t \<in> set ims" | "t \<in> set (concat rest)" by auto
  then show ?case
  proof cases
    case 1
    from scan_tiles_keys[OF u 1] show ?thesis .
  next
    case 2
    from Cons.IH[OF r t(2) 2] l show ?thesis by simp
  qed
qed

lemma strictly_increasing_gap:
  assumes "sorted_wrt (<) (rows :: int list)" "i \<le> j" "j < length rows"
  shows "rows ! i + int (j - i) \<le> rows ! j"
  using assms(2,3)
proof (induction j)
  case 0
  then show ?case by simp
next
  case (Suc j)
  show ?case
  proof (cases "i = Suc j")
    case True
    then show ?thesis by simp
  next
    case False
    with Suc.prems have ij: "i \<le> j" "j < length rows" by simp_all
    from assms(1) Suc.prems(2) have "rows ! j < rows ! Suc j"
      by (simp add: sorted_wrt_iff_nth_less)
    with Suc.IH[OF ij] ij(1) show ?thesis by (simp add: Suc_diff_le)
  qed
qed

text \<open>
  These groupings are the ones on which \<open>merge\<close> gets as far as padding, when the tiles
  come in the order of their rows: if no group is empty, every group holds tiles of one
  row coordinate, the coordinates grow from group to group starting at 0, and the first
  loop has completed, then the row coordinate of every tile is the position of its group.
\<close>

lemma second_loop_reached_aligned:
  assumes "dimension_tables fs g = Inr (mh, mw)"
    and "map_err (map_err (Image_open fs)) g = Inr tiles"
    and "\<forall>j<length g. tiles ! j \<noteq> [] \<and> (\<forall>t\<in>set (tiles ! j). coord_y_of t = Inr (rows ! j))"
    and "length rows = length g" "sorted_wrt (<) rows" "hd rows = 0"
  shows "rows_aligned fs g"
proof -
  let ?n = "length g"
  from map_err_Inr_nth[OF assms(2)] have lt: "length tiles = ?n"
    and op: "\<And>j. j < ?n \<Longrightarrow> map_err (Image_open fs) (g ! j) = Inr (tiles ! j)"
    by simp_all
  have up: "rows ! j < int ?n" if "j < ?n" for j
  proof -
    from assms(3) that obtain t where t: "t \<in> set (tiles ! j)" "coord_y_of t = Inr (rows ! j)"
      by (cases "tiles ! j") auto
    from t(1) that lt have "t \<in> set (concat tiles)" by auto
    from scan_groups_keys[OF assms(1)[unfolded dimension_tables_def] assms(2) this]
    obtain k where "row_key ?n t = Some k" by auto
    with t(2) have "py_index ?n (rows ! j) = Some k" by (simp add: row_key_def)
    then show ?thesis by (auto simp: py_index_def Let_def split: if_splits)
  qed
  have eq: "rows ! j = int j" if "j < ?n" for j
  proof -
    from that assms(4) have n: "rows \<noteq> []" by auto
    with assms(6) have z: "rows ! 0 = 0" by (simp add: hd_conv_nth)
    from strictly_increasing_gap[OF assms(5), of 0 j] that assms(4) z have lo: "int j \<le> rows ! j"
      by simp
    from strictly_increasing_gap[OF assms(5), of j "?n - 1"] that assms(4)
    have "rows ! j + int (?n - 1 - j) \<le> rows ! (?n - 1)" by simp
    moreover from up[of "?n - 1"] that have "rows ! (?n - 1) < int ?n" by simp
    ultimately have "rows ! j \<le> int j" using that by linarith
    with lo show ?thesis by simp
  qed
  show ?thesis
    unfolding rows_aligned_nth
  proof (intro allI impI ballI)
    fix j p assume j: "j < ?n" and p: "p \<in> set (g ! j)"
    from p obtain m where m: "m < length (g ! j)" "p = g ! j ! m" by (auto simp: in_set_conv_nth)
    from map_err_Inr_nth[OF op[OF j]] m have o: "Image_open fs p = Inr (tiles ! j ! m)"
      and "m < length (tiles ! j)" by simp_all
    then have "tiles ! j ! m \<in> set (tiles ! j)" by simp
    with assms(3) j have "coord_y_of (tiles ! j ! m) = Inr (rows ! j)" by simp
    with eq[OF j] o show "\<exists>im. Image_open fs p = Inr im \<and> coord_y_of im = Inr (int j)" by simp
  qed
qed

text \<open>
  Outside such groupings the two tables are read at one key and written at two. In the
  folder \<open>a_0_0.png\<close>, \<open>a_2_0.png\<close>, \<open>b_1_0.png\<close> the natural order puts the tile of row 2
  in the group at position 1, and \<open>pad_image\<close> gives it the width recorded for the group
  at position 2.
\<close>

lemma pad_image_width_key_skew:
  "group_images [''b_1_0.png'', ''a_2_0.png'', ''a_0_0.png''] ''png'' =
     Inr [[''a_0_0.png''], [''a_2_0.png''], [''b_1_0.png'']] \<and>
   dimension_tables fs_skew [[''a_0_0.png''], [''a_2_0.png''], [''b_1_0.png'']] =
     Inr ([1, 1, 1], [4, 3, 5]) \<and>
   map_err (Image_open fs_skew) ([[''a_0_0.png''], [''a_2_0.png''], [''b_1_0.png'']] ! 1) =
     Inr [(solid 3 1 2)\<lparr>filename := ''a_2_0.png''\<rparr>] \<and>
   pad_image (\<lambda>im. 0) ((solid 3 1 2)\<lparr>filename := ''a_2_0.png''\<rparr>) [1, 1, 1] [4, 3, 5] =
     Inr \<lparr>filename = [], format = [], width = 5, height = 1, data = [[0, 2, 2, 2, 0]]\<rparr>"
proof -
  let ?g = "[[''a_0_0.png''], [''a_2_0.png''], [''b_1_0.png'']]"
  let ?t = "(solid 3 1 2)\<lparr>filename := ''a_2_0.png''\<rparr>"
  have "group_images [''b_1_0.png'', ''a_2_0.png'', ''a_0_0.png''] ''png'' = Inr ?g" by code_simp
  moreover have "dimension_tables fs_skew ?g = Inr ([1, 1, 1], [4, 3, 5])" by code_simp
  moreover have "map_err (Image_open fs_skew) (?g ! 1) = Inr [?t]" by code_simp
  moreover have "pad_image (\<lambda>im. 0) ?t [1, 1, 1] [4, 3, 5] =
     Inr \<lparr>filename = [], format = [], width = 5, height = 1, data = [[0, 2, 2, 2, 0]]\<rparr>"
    by code_simp
  ultimately show ?thesis by blast
qed

section \<open>The name of the output file: stripping the coordinate suffix\<close>

lemma re_digits_Some:
  "re_digits ext s n = Some k \<Longrightarrow>
     0 < k \<and> k \<le> n \<and> (\<exists>c rest. drop k s = c # rest \<and> c \<noteq> CHR 0x0A \<and> prefix ext rest)"
  by (induction n) (auto split: list.splits if_splits)

lemma re_digits_top:
  assumes "drop (Suc k) s = c # rest" "c \<noteq> CHR 0x0A" "prefix ext rest"
  shows "re_digits ext s (Suc k) = Some (Suc k)"
  using assms by simp

text \<open>What a match looks like.\<close>

lemma re_match_Some:
  assumes "re_match ext s = Some m"
  shows "\<exists>d1 d2 c. m = CHR ''_'' # d1 @ CHR ''_'' # d2 @ c # ext \<and> d1 \<noteq> [] \<and> list_all is_digit d1 \<and>
           d2 \<noteq> [] \<and> list_all is_digit d2 \<and> prefix m s"
proof -
  from assms obtain s1 where s: "s = CHR ''_'' # s1" and d1: "takeWhile is_digit s1 \<noteq> []"
    by (auto simp: re_match_def split: list.splits if_splits)
  from assms s d1 obtain s2 where s1: "dropWhile is_digit s1 = CHR ''_'' # s2"
    by (auto simp: re_match_def split: list.splits if_splits)
  from assms s d1 s1 obtain k where k: "re_digits ext s2 (length (takeWhile is_digit s2)) = Some k"
    and m: "m = CHR ''_'' # takeWhile is_digit s1 @ CHR ''_'' # take (Suc k) s2 @ ext"
    by (auto simp: re_match_def split: option.splits)
  from re_digits_Some[OF k] obtain c rest where
    r: "0 < k" "k \<le> length (takeWhile is_digit s2)" "drop k s2 = c # rest" "prefix ext rest"
    by blast
  have t: "take (Suc k) s2 = take k s2 @ [c]"
    using r(3) by (metis append_take_drop_id take_Suc_conv_app_nth drop_eq_Nil hd_drop_conv_nth list.sel(1) list.simps(3) not_less)
  have dg: "list_all is_digit (take k s2)"
  proof -
    have "take k s2 = take k (takeWhile is_digit s2)"
      using r(2) by (metis append_eq_conv_conj min.absorb2 take_take takeWhile_dropWhile_id length_take)
    then show ?thesis
      by (metis in_set_takeD list_all_iff set_takeWhileD)
  qed
  have ne: "take k s2 \<noteq> []" using r(1,3) by (cases s2) auto
  have s2: "s2 = take k s2 @ c # rest" using r(3) by (metis append_take_drop_id)
  from r(4) obtain rest' where rest: "rest = ext @ rest'" by (auto simp: prefix_def)
  have "s = CHR ''_'' # takeWhile is_digit s1 @ CHR ''_'' # take k s2 @ c # ext @ rest'"
    using s s1 s2 rest by (metis takeWhile_dropWhile_id)
  then have "prefix m s" unfolding m t by (simp add: prefix_def)
  with m t dg ne d1 show ?thesis
    by (intro exI[of _ "takeWhile is_digit s1"] exI[of _ "take k s2"] exI[of _ c])
       (auto simp: list_all_iff dest: set_takeWhileD)
qed


text \<open>The suffix \<open>_row_col.ext\<close> matches as a whole.\<close>

lemma re_match_suffix:
  assumes "row \<noteq> []" "list_all is_digit row" "col \<noteq> []" "list_all is_digit col"
  shows "re_match ext (CHR ''_'' # row @ CHR ''_'' # col @ CHR ''.'' # ext) =
           Some (CHR ''_'' # row @ CHR ''_'' # col @ CHR ''.'' # ext)"
proof -
  have nd: "\<not> is_digit CHR ''_''" "\<not> is_digit CHR ''.''" by (simp_all add: is_digit_def)
  have t1: "takeWhile is_digit (row @ CHR ''_'' # col @ CHR ''.'' # ext) = row"
    and d1: "dropWhile is_digit (row @ CHR ''_'' # col @ CHR ''.'' # ext) = CHR ''_'' # col @ CHR ''.'' # ext"
    using assms(2) nd by (simp_all add: list_all_iff takeWhile_append2 dropWhile_append2)
  have t2: "takeWhile is_digit (col @ CHR ''.'' # ext) = col"
    using assms(4) nd by (simp add: list_all_iff takeWhile_append2)
  obtain k where k: "length col = Suc k" using assms(3) by (cases col) auto
  have "re_digits ext (col @ CHR ''.'' # ext) (Suc k) = Some (Suc k)"
    by (rule re_digits_top[where c = "CHR ''.''" and rest = ext]) (simp_all add: k[symmetric])
  then have r: "re_digits ext (col @ CHR ''.'' # ext) (length col) = Some (length col)"
    by (simp add: k)
  show ?thesis
    using assms(1) by (simp add: re_match_def t1 d1 t2 r)
qed

lemma digits_tail_unique:
  assumes "a @ CHR ''_'' # d = b @ CHR ''_'' # e" "list_all is_digit d" "list_all is_digit e"
  shows "a = b \<and> d = e"
proof -
  have nd: "\<not> is_digit CHR ''_''" by (simp add: is_digit_def)
  have tw: "takeWhile is_digit (rev (x @ CHR ''_'' # y)) = rev y" if "list_all is_digit y" for x y
  proof -
    have "takeWhile is_digit (rev y @ CHR ''_'' # rev x) = rev y @ takeWhile is_digit (CHR ''_'' # rev x)"
      using that by (intro takeWhile_append2) (simp add: list_all_iff)
    then show ?thesis using nd by simp
  qed
  from tw[OF assms(2), of a] tw[OF assms(3), of b] assms(1) have "d = e" by simp
  with assms(1) show ?thesis by simp
qed

lemma suffix_covers:
  assumes "suffix ys (xs @ c # zs)" "length zs < length ys"
  shows "c \<in> set ys"
proof -
  have "suffix (c # zs) (xs @ c # zs)" by (simp add: suffix_def)
  from suffix_length_suffix[OF this assms(1)] assms(2) have "suffix (c # zs) ys" by simp
  then show ?thesis by (auto simp: suffix_def)
qed

text \<open>A match that starts before the suffix ends before it.\<close>

lemma re_match_before_suffix:
  assumes m: "re_match ext (pre @ CHR ''_'' # row @ CHR ''_'' # col @ CHR ''.'' # ext) = Some m"
    and pre: "pre \<noteq> []"
    and dg: "list_all is_digit row" "list_all is_digit col"
    and ext: "ext \<noteq> []" "\<forall>c\<in>set ext. \<not> is_digit c \<and> c \<noteq> CHR ''_'' \<and> c \<noteq> CHR ''.''"
  shows "length m \<le> length pre"
proof (rule ccontr)
  assume "\<not> length m \<le> length pre"
  then have lm: "length pre < length m" by simp
  let ?body = "CHR ''_'' # row @ CHR ''_'' # col @ ''.''"
  from re_match_Some[OF m] obtain d1 d2 c where
    f: "m = CHR ''_'' # d1 @ CHR ''_'' # d2 @ c # ext" "list_all is_digit d1" "list_all is_digit d2"
    and p: "prefix m (pre @ ?body @ ext)"
    by auto
  from p lm obtain q where q: "m = pre @ q" "prefix q (?body @ ext)"
    unfolding prefix_append[of m pre] by (auto dest: prefix_length_le)
  have qn: "q \<noteq> []" using lm q(1) by auto
  have le: "last m \<in> set ext" using f(1) ext(1) by simp
  have sm: "suffix ext m" using f(1) by (simp add: suffix_def)
  have body_chars: "\<forall>x\<in>set ?body. is_digit x \<or> x = CHR ''_'' \<or> x = CHR ''.''"
    using dg by (auto simp: list_all_iff)
  from q(2) consider (inside) "prefix q ?body" | (beyond) e1 where "q = ?body @ e1" "prefix e1 ext"
    unfolding prefix_append[of q ?body] by blast
  then show False
  proof cases
    case inside
    then have "set q \<subseteq> set ?body" by (rule set_mono_prefix)
    moreover have "last m \<in> set q" using q(1) qn by simp
    ultimately show False using le ext(2) body_chars by blast
  next
    case beyond
    show False
    proof (cases "e1 = ext")
      case True
      with beyond(1) q(1) f(1)
      have "(CHR ''_'' # d1) @ CHR ''_'' # d2 @ [c] = (pre @ CHR ''_'' # row) @ CHR ''_'' # col @ ''.''"
        by simp
      then have "(CHR ''_'' # d1) @ CHR ''_'' # d2 = (pre @ CHR ''_'' # row) @ CHR ''_'' # col"
        by (metis append_assoc append_Cons butlast_snoc append_Nil butlast.simps(2) list.simps(3) snoc_eq_iff_butlast)
      from digits_tail_unique[OF this f(3) dg(2)] have "[] @ CHR ''_'' # d1 = pre @ CHR ''_'' # row"
        by simp
      from digits_tail_unique[OF this f(2) dg(1)] pre show False by simp
    next
      case False
      with beyond(2) have "length e1 < length ext"
        by (auto simp: prefix_def)
      moreover have "m = (pre @ CHR ''_'' # row @ CHR ''_'' # col) @ CHR ''.'' # e1"
        using q(1) beyond(1) by simp
      ultimately have "CHR ''.'' \<in> set ext"
        using sm suffix_covers by metis
      with ext(2) show False by blast
    qed
  qed
qed


lemma re_findall_Nil: "re_findall ext [] = []"
  by (subst re_findall.simps) simp

lemma re_findall_last:
  assumes "row \<noteq> []" "list_all is_digit row" "col \<noteq> []" "list_all is_digit col"
    and "ext \<noteq> []" "\<forall>c\<in>set ext. \<not> is_digit c \<and> c \<noteq> CHR ''_'' \<and> c \<noteq> CHR ''.''"
  shows "re_findall ext (pre @ CHR ''_'' # row @ CHR ''_'' # col @ CHR ''.'' # ext) \<noteq> [] \<and>
         last (re_findall ext (pre @ CHR ''_'' # row @ CHR ''_'' # col @ CHR ''.'' # ext)) =
           CHR ''_'' # row @ CHR ''_'' # col @ CHR ''.'' # ext"
proof (induction pre rule: length_induct)
  case (1 pre)
  let ?sfx = "CHR ''_'' # row @ CHR ''_'' # col @ CHR ''.'' # ext"
  show ?case
  proof (cases "pre = []")
    case True
    have "re_findall ext ?sfx = [?sfx]"
      by (subst re_findall.simps) (simp add: re_match_suffix[OF assms(1-4)] re_findall_Nil)
    with True show ?thesis by simp
  next
    case False
    show ?thesis
    proof (cases "re_match ext (pre @ ?sfx)")
      case None
      have l: "length (tl pre) < length pre" using False by (cases pre) auto
      have "re_findall ext (pre @ ?sfx) = re_findall ext (tl pre @ ?sfx)"
        using None False by (subst re_findall.simps) simp
      with 1[rule_format, OF l] show ?thesis by simp
    next
      case (Some m)
      from re_match_before_suffix[OF Some False assms(2,4,5,6)] have le: "length m \<le> length pre" .
      from re_match_Some[OF Some] have mn: "m \<noteq> []" by auto
      have l: "length (drop (length m) pre) < length pre" using False mn by (cases pre) auto
      have "re_findall ext (pre @ ?sfx) = m # re_findall ext (drop (length m) pre @ ?sfx)"
        using Some False le by (subst re_findall.simps) simp
      with 1[rule_format, OF l] show ?thesis by simp
    qed
  qed
qed

lemma str_split_nonempty: "str_split sep s \<noteq> []"
  by (induction s) (auto split: list.splits)

lemma str_split_length: "length (str_split sep s) = Suc (length (filter (\<lambda>c. c = sep) s))"
  by (induction s) (auto split: list.splits)

lemma str_split_last: "sep \<notin> set b \<Longrightarrow> last (str_split sep (a @ sep # b)) = b"
proof (induction a)
  case Nil
  have "str_split sep b = [b]" using Nil by (induction b) auto
  then show ?case by simp
next
  case (Cons c a)
  have "length (str_split sep (a @ sep # b)) = Suc (length (filter (\<lambda>c. c = sep) (a @ sep # b)))"
    by (rule str_split_length)
  then obtain p q ps where s: "str_split sep (a @ sep # b) = p # q # ps"
    by (cases "str_split sep (a @ sep # b)"; cases "tl (str_split sep (a @ sep # b))") auto
  with Cons show ?case by auto
qed

lemma getitem_last: "xs \<noteq> [] \<Longrightarrow> getitem xs (- 1) = Inr (last xs)"
  by (cases xs rule: rev_cases) (auto simp: getitem_def py_index_def nth_append)

lemma basename_append:
  assumes "dir = [] \<or> last dir = CHR ''/''" "CHR ''/'' \<notin> set name"
  shows "basename (dir @ name) = name"
proof -
  have "takeWhile (\<lambda>c. c \<noteq> CHR ''/'') (rev name @ rev dir) =
          rev name @ takeWhile (\<lambda>c. c \<noteq> CHR ''/'') (rev dir)"
    using assms(2) by (intro takeWhile_append2) auto
  moreover have "takeWhile (\<lambda>c. c \<noteq> CHR ''/'') (rev dir) = []"
    using assms(1) by (cases dir rule: rev_cases) auto
  ultimately show ?thesis by (simp add: basename_def)
qed

lemma str_replace_suffix_once:
  assumes "sfx \<noteq> []" "\<forall>i<length stem. \<not> prefix sfx (drop i (stem @ sfx))"
  shows "str_replace (stem @ sfx) sfx [] = stem"
  using assms(2)
proof (induction stem)
  case Nil
  have "str_replace sfx sfx [] = str_replace [] sfx []"
    using assms(1) by (subst str_replace.simps) simp
  also have "\<dots> = []" using assms(1) by (subst str_replace.simps) simp
  finally show ?case by simp
next
  case (Cons c stem)
  from Cons.prems[rule_format, of 0] have np: "\<not> prefix sfx (c # stem @ sfx)" by simp
  have "\<forall>i<length stem. \<not> prefix sfx (drop i (stem @ sfx))"
    using Cons.prems by (metis Suc_less_eq append_Cons drop_Suc_Cons length_Cons)
  from Cons.IH[OF this] have ih: "str_replace (stem @ sfx) sfx [] = stem" .
  have "str_replace ((c # stem) @ sfx) sfx [] = c # str_replace (stem @ sfx) sfx []"
    using assms(1) np by (subst str_replace.simps) simp
  with ih show ?case by simp
qed


text \<open>
  When the string \<open>_row_col.ext\<close> occurs in the file name only as its end, the name
  derived from a first path \<open>dir/stem_row_col.ext\<close>, with decimal \<open>row\<close> and \<open>col\<close> and one
  of the six image extensions, is \<open>stem_merged.ext\<close>: the trailing \<open>_row_col.ext\<close> is
  stripped and \<open>_merged.ext\<close> appended.
\<close>

lemma output_name_single_occurrence:
  assumes "first_image = dir @ stem @ ''_'' @ row @ ''_'' @ col @ ''.'' @ ext"
    and "dir = [] \<or> last dir = CHR ''/''" and "CHR ''/'' \<notin> set stem"
    and "row \<noteq> []" "list_all is_digit row" "col \<noteq> []" "list_all is_digit col"
    and "''.'' @ ext \<in> set image_extensions"
    and "\<forall>i<length stem. \<not> prefix (''_'' @ row @ ''_'' @ col @ ''.'' @ ext)
                               (drop i (stem @ ''_'' @ row @ ''_'' @ col @ ''.'' @ ext))"
  shows "output_name first_image = Inr (stem @ ''_merged.'' @ ext)"
proof -
  let ?sfx = "CHR ''_'' # row @ CHR ''_'' # col @ CHR ''.'' # ext"
  have e: "ext \<in> {''jpg'', ''jpeg'', ''tif'', ''bmp'', ''png'', ''gif''}"
    using assms(8) by (auto simp: image_extensions_def)
  then have en: "ext \<noteq> []"
    and ec: "\<forall>c\<in>set ext. \<not> is_digit c \<and> c \<noteq> CHR ''_'' \<and> c \<noteq> CHR ''.''"
    and es: "CHR ''/'' \<notin> set ext" "CHR ''.'' \<notin> set ext"
    by (auto simp: is_digit_def)
  have f: "first_image = (dir @ stem @ CHR ''_'' # row @ CHR ''_'' # col) @ CHR ''.'' # ext"
    and f': "first_image = (dir @ stem) @ ?sfx" and f'': "first_image = dir @ (stem @ ?sfx)"
    using assms(1) by simp_all
  have "last (str_split CHR ''.'' first_image) = ext"
    unfolding f by (rule str_split_last[OF es(2)])
  then have 1: "getitem (str_split CHR ''.'' first_image) (- 1) = Inr ext"
    using getitem_last[OF str_split_nonempty, of "CHR ''.''" first_image] by simp
  from re_findall_last[OF assms(4-7) en ec, of "dir @ stem"]
  have "re_findall ext first_image \<noteq> []" "last (re_findall ext first_image) = ?sfx"
    unfolding f' by blast+
  then have 2: "getitem (re_findall ext first_image) (- 1) = Inr ?sfx"
    using getitem_last[of "re_findall ext first_image"] by simp
  have "CHR ''/'' \<notin> set (stem @ ?sfx)"
    using assms(3,5,7) es(1) by (auto simp: list_all_iff is_digit_def)
  from basename_append[OF assms(2) this] have 3: "basename first_image = stem @ ?sfx"
    unfolding f'' .
  have 4: "str_replace (stem @ ?sfx) ?sfx [] = stem"
    using assms(9) by (intro str_replace_suffix_once) simp_all
  show "output_name first_image = Inr (stem @ ''_merged.'' @ ext)"
    by (simp add: output_name_def 1 2 3 4)
qed

lemma all_less_list_all: "list_all P [0..<n] \<Longrightarrow> \<forall>i<n. P i"
  by (simp add: list_all_iff)

lemma output_name_scanA:
  "output_name ''/data/scanA_0_0.jpg'' = Inr (''scanA'' @ ''_merged.'' @ ''jpg'')"
proof -
  have 1: "''/data/scanA_0_0.jpg'' = ''/data/'' @ ''scanA'' @ ''_'' @ ''0'' @ ''_'' @ ''0'' @ ''.'' @ ''jpg''"
    by simp
  have 2: "''/data/'' = [] \<or> last ''/data/'' = CHR ''/''" by simp
  have 3: "CHR ''/'' \<notin> set ''scanA''" by simp
  have 4: "''0'' \<noteq> []" "list_all is_digit ''0''" by (simp_all add: is_digit_def)
  have 5: "''.'' @ ''jpg'' \<in> set image_extensions" by (simp add: image_extensions_def)
  have 6: "\<forall>i<length ''scanA''. \<not> prefix (''_'' @ ''0'' @ ''_'' @ ''0'' @ ''.'' @ ''jpg'')
                               (drop i (''scanA'' @ ''_'' @ ''0'' @ ''_'' @ ''0'' @ ''.'' @ ''jpg''))"
    by (rule all_less_list_all) code_simp
  show ?thesis by (rule output_name_single_occurrence[OF 1 2 3 4 4 5 6])
qed

text \<open>
  For the folder that holds the one tile \<open>scanA_0_0.jpg\<close>, \<^verbatim>\<open>main\<close> saves the merged image
  as \<open>scanA_merged.jpg\<close>.
\<close>

lemma main_body_scanA:
  "main_body (\<lambda>im. 0) fs_scanA [''/data/scanA_0_0.jpg''] =
     Inr (''scanA_merged.jpg'',
          \<lparr>filename = [], format = [], width = 2, height = 1, data = [[1, 2]]\<rparr>)"
  by code_simp

text \<open>
  C7. The output name is the first tile's file name with its trailing \<open>_row_col.ext\<close>
  stripped and \<open>_merged.ext\<close> appended. \<^verbatim>\<open>main\<close> does not compute this name for every
  tile-set: it takes the last match of the pattern in the first path and removes every
  occurrence of that string from the base name. The folder \<open>/t\<close> holding the one JPEG tile
  \<open>x_0_0.jpg_0_0.jpg\<close>, of row 0 and column 0, is grouped into one row and merged, and
  \<^verbatim>\<open>main\<close> saves the image as \<open>x_merged.jpg\<close>; stripping the trailing \<open>_0_0.jpg\<close> and
  appending \<open>_merged.jpg\<close> gives \<open>x_0_0.jpg_merged.jpg\<close>.
\<close>

theorem main_body_removes_every_occurrence:
  "check_image_file ''x_0_0.jpg_0_0.jpg'' \<and>
   ''/t/x_0_0.jpg_0_0.jpg'' = ''/t/'' @ ''x_0_0.jpg'' @ ''_'' @ ''0'' @ ''_'' @ ''0'' @ ''.'' @ ''jpg'' \<and>
   row_of_path ''jpg'' ''/t/x_0_0.jpg_0_0.jpg'' = Inr 0 \<and>
   group_images [''/t/x_0_0.jpg_0_0.jpg''] ''jpg'' = Inr [[''/t/x_0_0.jpg_0_0.jpg'']] \<and>
   re_findall ''jpg'' ''/t/x_0_0.jpg_0_0.jpg'' = [''_0_0.jpg'', ''_0_0.jpg''] \<and>
   main_body (\<lambda>im. 0) fs_twice [''/t/x_0_0.jpg_0_0.jpg''] =
     Inr (''x_merged.jpg'',
          \<lparr>filename = [], format = [], width = 2, height = 1, data = [[1, 2]]\<rparr>) \<and>
   ''x_merged.jpg'' \<noteq> ''x_0_0.jpg'' @ ''_merged.'' @ ''jpg''"
proof -
  have "check_image_file ''x_0_0.jpg_0_0.jpg''" by code_simp
  moreover have "row_of_path ''jpg'' ''/t/x_0_0.jpg_0_0.jpg'' = Inr 0" by code_simp
  moreover have "group_images [''/t/x_0_0.jpg_0_0.jpg''] ''jpg'' = Inr [[''/t/x_0_0.jpg_0_0.jpg'']]"
    by code_simp
  moreover have "re_findall ''jpg'' ''/t/x_0_0.jpg_0_0.jpg'' = [''_0_0.jpg'', ''_0_0.jpg'']"
    by code_simp
  moreover have "main_body (\<lambda>im. 0) fs_twice [''/t/x_0_0.jpg_0_0.jpg''] =
     Inr (''x_merged.jpg'',
          \<lparr>filename = [], format = [], width = 2, height = 1, data = [[1, 2]]\<rparr>)"
    by code_simp
  ultimately show ?thesis by simp
qed

end
